theory Spec2Isabelle
  imports Main "HOL-Library.AList" "HOL-Library.Word"
begin

section \<open>cluster/lcopy.go: LOM copy management\<close>

text \<open>
  The Go map \<open>lom.md.copies\<close> (type \<open>fs.MPI\<close>, FQN to mountpath) is an association
  list: \<open>map_of\<close> is the lookup, \<open>AList.update\<close> the assignment \<open>m[k] = v\<close>,
  \<open>AList.delete\<close> the builtin \<open>delete(m, k)\<close>, and the order of the list is the
  order in which a \<open>range\<close> loop visits the entries (Go leaves it unspecified, so a
  statement about every list is a statement about every iteration order).
  The nil map and the empty map are both \<open>[]\<close>: the code reads them alike
  (\<open>len\<close>, lookup, \<open>range\<close>, \<open>delete\<close>), and it never leaves an empty non-nil map
  behind (\<open>delCopyMd\<close> sets nil, \<open>AddCopy\<close> and \<open>Copy2FQN\<close> insert right after
  \<open>make\<close>).

  The \<open>debug\<close> package of this file is a build-tag package: its assertions are compiled
  out of a production build, which is what is modelled here.
\<close>

record MountpathInfo =
  Path :: string
  WaitingDD :: bool

type_synonym MPI = "(string \<times> MountpathInfo) list"

text \<open>
  Of the metadata and of the bucket properties, the fields that the functions of this
  file read: the copies, the dirty flag and the checksum; the mirror configuration
  (\<open>lom.MirrorConf()\<close>: \<open>Enabled\<close>, \<open>Copies\<close>) and whether the write policy is
  immediate (\<open>lom.WritePolicy().IsImmediate()\<close>). The version, which \<open>Copy2FQN\<close>
  only resets, is left out.
\<close>

record Bck =
  Name :: string
  Provider :: string
  BackendID :: nat

record lmeta =
  uname :: string
  copies :: MPI
  dirty :: bool
  cksum :: string

record LOM =
  FQN :: string
  HrwFQN :: string
  ObjName :: string
  Bucket :: Bck
  mpathInfo :: MountpathInfo
  md :: lmeta
  mirror_enabled :: bool
  mirror_copies :: int
  wp_immediate :: bool

datatype content_type = ObjectType | WorkfileType

datatype access_result = AccessOK | AccessNotExist | AccessErr

text \<open>
  The file system as the functions of this file see it: the set of files, and for each
  FQN whether writing the metadata xattr fails, what \<open>fs.Access\<close> answers, and whether
  \<open>os.Remove\<close> fails with an error other than "does not exist".
\<close>

record fsys =
  files :: "string set"
  setxattr_fails :: "string \<Rightarrow> bool"
  Access :: "string \<Rightarrow> access_result"
  remove_fails :: "string \<Rightarrow> bool"
  persist_fails :: "string \<Rightarrow> bool"
  copy_fails :: "string \<Rightarrow> string \<Rightarrow> bool"
  rename_fails :: "string \<Rightarrow> string \<Rightarrow> bool"
  copy_cksum :: "string \<Rightarrow> string"
  loads_equal :: "string \<Rightarrow> bool"

datatype lom_error =
    ErrCopyDoesNotExist string int
  | ErrIO string
  | ErrBadDataCksum
  | ErrInit
  | ErrHrw

text \<open>
  The collaborators outside this file, as the calls of this file use them:
  \<open>fs.GetAvail()\<close> (path to mountpath), \<open>fs.GetAllMpathUtils().Get\<close>, the
  \<open>HrwMpath\<close> oracle, \<open>mi.MakePathFQN\<close>, \<open>Bck.Equal\<close> with both flags set as
  \<open>isMirror\<close> passes them, \<open>lom.Clone(fqn)\<close> followed by \<open>Init\<close> (the clone and
  the error of \<open>Init\<close>), the workfile name \<open>fs.CSM.Gen\<close> and the constant
  \<open>fs.WorkfileCopy\<close>.
\<close>

record lenv =
  GetAvail :: MPI
  GetAllMpathUtils :: "string \<Rightarrow> int"
  HrwMpath :: "string \<Rightarrow> lom_error + MountpathInfo"
  MakePathFQN :: "MountpathInfo \<Rightarrow> Bck \<Rightarrow> content_type \<Rightarrow> string \<Rightarrow> string"
  Bck_Equal :: "Bck \<Rightarrow> Bck \<Rightarrow> bool"
  CloneInit :: "LOM \<Rightarrow> string \<Rightarrow> lom_error option \<times> LOM"
  GenWorkFQN :: "LOM \<Rightarrow> string"
  WorkfileCopy :: string

definition NumCopies :: "LOM \<Rightarrow> int" where
  "NumCopies lom = max (int (length (copies (md lom)))) 1"

definition HasCopies :: "LOM \<Rightarrow> bool" where
  "HasCopies lom = (NumCopies lom > 1)"

text \<open>
  Modelled from the spec: \<open>lom.IsHRW()\<close> is not in this file; the spec says
  "A LOM is HRW iff fqn == hrw_fqn".
\<close>

definition IsHRW :: "LOM \<Rightarrow> bool" where
  "IsHRW lom = (FQN lom = HrwFQN lom)"

definition IsCopy :: "LOM \<Rightarrow> bool" where
  "IsCopy lom = (if IsHRW lom then False else map_of (copies (md lom)) (FQN lom) \<noteq> None)"

definition whingeCopy :: "LOM \<Rightarrow> bool" where
  "whingeCopy lom = (if \<not> IsCopy lom then False else True)"

definition set_copies :: "MPI \<Rightarrow> LOM \<Rightarrow> LOM" where
  "set_copies c lom = lom\<lparr>md := (md lom)\<lparr>copies := c\<rparr>\<rparr>"

definition delCopyMd :: "string \<Rightarrow> LOM \<Rightarrow> LOM" where
  "delCopyMd copyFQN lom =
     (let c = AList.delete copyFQN (copies (md lom))
      in if length c \<le> 1 then set_copies [] lom else set_copies c lom)"

definition makeDirty :: "LOM \<Rightarrow> LOM" where
  "makeDirty lom = lom\<lparr>md := (md lom)\<lparr>dirty := True\<rparr>\<rparr>"

text \<open>
  Modelled from the spec: \<open>lom.persistMdOnCopies()\<close> is not in this file. The spec says
  "persist metadata to every copy in a loop: on any copy's persist failure, drop that
  copy from metadata": the copies are visited in order and the first one whose metadata
  write fails is returned with the error (\<open>Some\<close>); \<open>None\<close> is the nil error.
\<close>

fun persistMd :: "(string \<Rightarrow> bool) \<Rightarrow> MPI \<Rightarrow> string option" where
  "persistMd fails [] = None"
| "persistMd fails ((copyFQN, mi) # cs) =
     (if fails copyFQN then Some copyFQN else persistMd fails cs)"

definition persistMdOnCopies :: "fsys \<Rightarrow> LOM \<Rightarrow> string option" where
  "persistMdOnCopies fs lom = persistMd (setxattr_fails fs) (copies (md lom))"

lemma persistMd_Some_in: "persistMd fails cs = Some f \<Longrightarrow> f \<in> fst ` set cs \<and> fails f"
  by (induction cs) (auto split: if_splits)

lemma persistMd_None: "persistMd fails cs = None \<longleftrightarrow> (\<forall>x \<in> set cs. \<not> fails (fst x))"
  by (induction cs) (auto split: if_splits)

lemma length_delete_less:
  "k \<in> fst ` set al \<Longrightarrow> length (AList.delete k al) < length al"
proof -
  assume "k \<in> fst ` set al"
  then obtain v where "(k, v) \<in> set al" by auto
  then show ?thesis
    unfolding AList.delete_eq by (rule length_filter_less) simp
qed

lemma copies_set_copies [simp]: "copies (md (set_copies c lom)) = c"
  by (simp add: set_copies_def)

lemma set_copies_fields [simp]:
  "FQN (set_copies c lom) = FQN lom"
  "HrwFQN (set_copies c lom) = HrwFQN lom"
  "ObjName (set_copies c lom) = ObjName lom"
  "Bucket (set_copies c lom) = Bucket lom"
  "mpathInfo (set_copies c lom) = mpathInfo lom"
  "mirror_enabled (set_copies c lom) = mirror_enabled lom"
  "mirror_copies (set_copies c lom) = mirror_copies lom"
  "wp_immediate (set_copies c lom) = wp_immediate lom"
  "uname (md (set_copies c lom)) = uname (md lom)"
  "dirty (md (set_copies c lom)) = dirty (md lom)"
  "cksum (md (set_copies c lom)) = cksum (md lom)"
  by (simp_all add: set_copies_def)

lemma delCopyMd_fields [simp]:
  "FQN (delCopyMd k lom) = FQN lom"
  "HrwFQN (delCopyMd k lom) = HrwFQN lom"
  "ObjName (delCopyMd k lom) = ObjName lom"
  "Bucket (delCopyMd k lom) = Bucket lom"
  "mpathInfo (delCopyMd k lom) = mpathInfo lom"
  "mirror_enabled (delCopyMd k lom) = mirror_enabled lom"
  "mirror_copies (delCopyMd k lom) = mirror_copies lom"
  "wp_immediate (delCopyMd k lom) = wp_immediate lom"
  by (simp_all add: delCopyMd_def Let_def)

lemma copies_delCopyMd:
  "copies (md (delCopyMd k lom)) =
     (if length (AList.delete k (copies (md lom))) \<le> 1 then []
      else AList.delete k (copies (md lom)))"
  by (simp add: delCopyMd_def Let_def)

lemma delCopyMd_length_less:
  "k \<in> fst ` set (copies (md lom)) \<Longrightarrow>
     length (copies (md (delCopyMd k lom))) < length (copies (md lom))"
  using length_delete_less [of k "copies (md lom)"]
  by (auto simp: copies_delCopyMd)

lemma delCopyMd_length_le:
  "length (copies (md (delCopyMd k lom))) \<le> length (copies (md lom))"
  by (simp add: copies_delCopyMd length_delete_le)

lemma delCopyMd_keys_subset:
  "fst ` set (copies (md (delCopyMd k lom))) \<subseteq> fst ` set (copies (md lom)) - {k}"
  by (auto simp: copies_delCopyMd AList.delete_eq split: if_splits)

text \<open>
  The persist loop of \<open>syncMetaWithCopies\<close>. It returns the LOM, the FQNs it dropped
  (one per failing iteration, in order) and the FQNs it reported to the file system
  health checker (\<open>T.FSHC\<close>). The recursion is the \<open>for\<close> loop; it ends because a
  failing iteration takes a key out of \<open>md.copies\<close>.
\<close>

function persist_loop :: "fsys \<Rightarrow> LOM \<Rightarrow> LOM \<times> string list \<times> string list" where
  "persist_loop fs lom =
     (case persistMdOnCopies fs lom of
        None \<Rightarrow> (lom, [], [])
      | Some copyFQN \<Rightarrow>
          (let lom' = delCopyMd copyFQN lom;
               notes = (if Access fs copyFQN = AccessErr then [copyFQN] else [])
           in case persist_loop fs lom' of
                (l, dropped, ns) \<Rightarrow> (l, copyFQN # dropped, notes @ ns)))"
  by pat_completeness auto
termination
proof (relation "measure (\<lambda>(fs, lom). length (copies (md lom)))")
  show "wf (measure (\<lambda>(fs, lom). length (copies (md lom))))"
    by simp
next
  fix fs :: fsys and lom :: LOM and x2 x
  assume "persistMdOnCopies fs lom = Some x2" and "x = delCopyMd x2 lom"
  then show "((fs, x), (fs, lom)) \<in> measure (\<lambda>(fs, lom). length (copies (md lom)))"
    using persistMd_Some_in [of "setxattr_fails fs" "copies (md lom)" x2]
    by (simp add: persistMdOnCopies_def delCopyMd_length_less)
qed

declare persist_loop.simps [simp del]

definition syncMetaWithCopies ::
  "fsys \<Rightarrow> LOM \<Rightarrow> lom_error option \<times> LOM \<times> string list \<times> string list" where
  "syncMetaWithCopies fs lom =
     (if \<not> HasCopies lom then (None, lom, [], [])
      else if \<not> wp_immediate lom then (None, makeDirty lom, [], [])
      else case persist_loop fs lom of (l, dropped, ns) \<Rightarrow> (None, l, dropped, ns))"

text \<open>\<open>cos.RemoveFile\<close>: \<open>os.Remove\<close>, where "does not exist" is not an error.\<close>

definition RemoveFile :: "fsys \<Rightarrow> string \<Rightarrow> lom_error option \<times> fsys" where
  "RemoveFile fs path =
     (if remove_fails fs path then (Some (ErrIO path), fs)
      else (None, fs\<lparr>files := files fs - {path}\<rparr>))"

fun delCopies_md :: "int \<Rightarrow> string list \<Rightarrow> LOM \<Rightarrow> lom_error option \<times> LOM" where
  "delCopies_md numCopies [] lom = (None, lom)"
| "delCopies_md numCopies (copyFQN # rest) lom =
     (if map_of (copies (md lom)) copyFQN = None
      then (Some (ErrCopyDoesNotExist copyFQN numCopies), lom)
      else delCopies_md numCopies rest (delCopyMd copyFQN lom))"

fun removeCopies :: "fsys \<Rightarrow> string list \<Rightarrow> fsys" where
  "removeCopies fs [] = fs"
| "removeCopies fs (copyFQN # rest) = removeCopies (snd (RemoveFile fs copyFQN)) rest"

text \<open>
  \<open>DelCopies\<close> returns the error, the LOM as the call leaves it (the receiver is
  mutated in place, also on the error paths), the file system and the health-checker
  notifications.
\<close>

definition DelCopies ::
  "fsys \<Rightarrow> string list \<Rightarrow> LOM \<Rightarrow> lom_error option \<times> LOM \<times> fsys \<times> string list" where
  "DelCopies fs copiesFQN lom =
     (let numCopies = NumCopies lom in
      case delCopies_md numCopies copiesFQN lom of
        (Some e, lom1) \<Rightarrow> (Some e, lom1, fs, [])
      | (None, lom1) \<Rightarrow>
          (case syncMetaWithCopies fs lom1 of
             (Some e, lom2, dropped, ns) \<Rightarrow> (Some e, lom2, fs, ns)
           | (None, lom2, dropped, ns) \<Rightarrow> (None, lom2, removeCopies fs copiesFQN, ns)))"


definition isMirror :: "lenv \<Rightarrow> LOM \<Rightarrow> LOM \<Rightarrow> bool" where
  "isMirror env lom dst =
     (mirror_enabled lom \<and> ObjName lom = ObjName dst \<and> Bck_Equal env (Bucket lom) (Bucket dst))"

definition AddCopy ::
  "fsys \<Rightarrow> string \<Rightarrow> MountpathInfo \<Rightarrow> LOM \<Rightarrow>
     lom_error option \<times> LOM \<times> string list \<times> string list" where
  "AddCopy fs copyFQN mpi lom =
     (let c1 = AList.update copyFQN mpi (copies (md lom));
          c2 = AList.update (FQN lom) (mpathInfo lom) c1
      in syncMetaWithCopies fs (set_copies c2 lom))"

definition DelAllCopies ::
  "fsys \<Rightarrow> LOM \<Rightarrow> lom_error option \<times> LOM \<times> fsys \<times> string list" where
  "DelAllCopies fs lom =
     DelCopies fs (filter (\<lambda>copyFQN. copyFQN \<noteq> FQN lom) (map fst (copies (md lom)))) lom"

text \<open>
  \<open>DelExtraCopies\<close>: the loop over the available mountpaths carries \<open>removed\<close>,
  \<open>err\<close> and the file system; \<open>mk\<close> is \<open>mi.MakePathFQN(lom.Bucket(), fs.ObjectType,
  lom.ObjName)\<close> and \<open>fqn\<close> the variadic argument.
\<close>

fun delExtra_loop ::
  "(MountpathInfo \<Rightarrow> string) \<Rightarrow> MPI \<Rightarrow> string list \<Rightarrow> MPI \<Rightarrow>
     bool \<times> lom_error option \<times> fsys \<Rightarrow> bool \<times> lom_error option \<times> fsys" where
  "delExtra_loop mk cps fqn [] st = st"
| "delExtra_loop mk cps fqn ((mpath, mi) # rest) (removed, err, fs) =
     (let copyFQN = mk mi in
      if map_of cps copyFQN \<noteq> None then delExtra_loop mk cps fqn rest (removed, err, fs)
      else case RemoveFile fs copyFQN of
          (Some err1, fs') \<Rightarrow> delExtra_loop mk cps fqn rest (removed, Some err1, fs')
        | (None, fs') \<Rightarrow>
            delExtra_loop mk cps fqn rest
              ((case fqn of [] \<Rightarrow> removed | f0 # _ \<Rightarrow> if f0 = copyFQN then True else removed),
               err, fs'))"

definition DelExtraCopies ::
  "lenv \<Rightarrow> fsys \<Rightarrow> string list \<Rightarrow> LOM \<Rightarrow> bool \<times> lom_error option \<times> fsys" where
  "DelExtraCopies env fs fqn lom =
     (if whingeCopy lom then (False, None, fs)
      else delExtra_loop (\<lambda>mi. MakePathFQN env mi (Bucket lom) ObjectType (ObjName lom))
             (copies (md lom)) fqn (GetAvail env) (False, None, fs))"

text \<open>
  File operations of \<open>Copy\<close> and \<open>Copy2FQN\<close>. \<open>lom.Persist()\<close>, \<open>cos.CopyFile\<close> and
  \<open>cos.Rename\<close> are not in this file: each fails where the file system says so and
  otherwise has its effect on the set of files.
\<close>

definition Persist :: "fsys \<Rightarrow> LOM \<Rightarrow> lom_error option" where
  "Persist fs lom = (if persist_fails fs (FQN lom) then Some (ErrIO (FQN lom)) else None)"

definition CopyFile :: "fsys \<Rightarrow> string \<Rightarrow> string \<Rightarrow> lom_error option \<times> fsys" where
  "CopyFile fs src dst =
     (if copy_fails fs src dst then (Some (ErrIO dst), fs)
      else (None, fs\<lparr>files := insert dst (files fs)\<rparr>))"

definition Rename :: "fsys \<Rightarrow> string \<Rightarrow> string \<Rightarrow> lom_error option \<times> fsys" where
  "Rename fs src dst =
     (if rename_fails fs src dst then (Some (ErrIO dst), fs)
      else (None, fs\<lparr>files := insert dst (files fs - {src})\<rparr>))"

text \<open>The part of \<open>Copy\<close> from the label \<open>add\<close> on.\<close>

definition Copy_add ::
  "fsys \<Rightarrow> string \<Rightarrow> MountpathInfo \<Rightarrow> LOM \<Rightarrow> lom_error option \<times> LOM \<times> fsys" where
  "Copy_add fs copyFQN mi lom =
     (case AddCopy fs copyFQN mi lom of
        (e0, lom1, dropped, ns) \<Rightarrow>
          (case Persist fs lom1 of
             Some err \<Rightarrow> (Some err, delCopyMd copyFQN lom1, fs)
           | None \<Rightarrow>
               (case syncMetaWithCopies fs lom1 of
                  (e, lom2, dropped2, ns2) \<Rightarrow> (e, lom2, fs))))"

definition Copy ::
  "lenv \<Rightarrow> fsys \<Rightarrow> MountpathInfo \<Rightarrow> LOM \<Rightarrow> lom_error option \<times> LOM \<times> fsys" where
  "Copy env fs mi lom =
     (let copyFQN = MakePathFQN env mi (Bucket lom) ObjectType (ObjName lom);
          workFQN = MakePathFQN env mi (Bucket lom) WorkfileType
                      (WorkfileCopy env @ ''.'' @ ObjName lom)
      in if copyFQN \<in> files fs \<and> loads_equal fs copyFQN then Copy_add fs copyFQN mi lom
         else case CopyFile fs (FQN lom) workFQN of
             (Some err, fs1) \<Rightarrow> (Some err, lom, fs1)
           | (None, fs1) \<Rightarrow>
               (case Rename fs1 workFQN copyFQN of
                  (Some err, fs2) \<Rightarrow> (Some err, lom, snd (RemoveFile fs2 workFQN))
                | (None, fs2) \<Rightarrow> Copy_add fs2 copyFQN mi lom))"

text \<open>
  \<open>Copy2FQN\<close> returns \<open>dst\<close> (\<open>None\<close> is the nil pointer), how the call ends, the
  source LOM as the call leaves it and the file system. It panics where it assigns into
  \<open>dst.md.copies\<close> while that map is nil: \<open>lom.isMirror(dst)\<close> holds, \<open>lom.md.copies\<close>
  is not nil and \<open>dst.isMirror(lom)\<close> did not hold; the first assignment of the tuple,
  \<open>lom.md.copies[dstFQN]\<close>, has been carried out by then.
\<close>

datatype exit = Done "lom_error option" | Panicked

definition Copy2FQN_mirror ::
  "lenv \<Rightarrow> fsys \<Rightarrow> string \<Rightarrow> bool \<Rightarrow> LOM \<Rightarrow> LOM \<Rightarrow> LOM option \<times> exit \<times> LOM \<times> fsys" where
  "Copy2FQN_mirror env fs dstFQN dst_nil dst lom =
     (if copies (md lom) \<noteq> [] \<and> dst_nil
      then (Some dst, Panicked,
            set_copies (AList.update dstFQN (mpathInfo dst) (copies (md lom))) lom, fs)
      else
        (let lom1 = set_copies (AList.update (FQN lom) (mpathInfo lom)
                      (AList.update dstFQN (mpathInfo dst) (copies (md lom)))) lom;
             dst1 = set_copies (AList.update (FQN lom) (mpathInfo lom)
                      (AList.update dstFQN (mpathInfo dst) (copies (md dst)))) dst
         in case syncMetaWithCopies fs lom1 of
              (Some err, lom2, dropped, ns) \<Rightarrow>
                (Some dst1, Done (Some err), lom2,
                 (if map_of (copies (md lom2)) (FQN dst1) = None
                  then snd (RemoveFile fs (FQN dst1)) else fs))
            | (None, lom2, dropped, ns) \<Rightarrow> (Some dst1, Done (Persist fs lom2), lom2, fs)))"

text \<open>
  \<open>Copy2FQN\<close> in its three phases: the clone and its copies (lines 273-290), the copy
  through the workfile (297-308), and the checksum and the persisting (310-343).
\<close>

definition Copy2FQN_finish ::
  "lenv \<Rightarrow> fsys \<Rightarrow> string \<Rightarrow> bool \<Rightarrow> LOM \<Rightarrow> LOM \<Rightarrow> LOM option \<times> exit \<times> LOM \<times> fsys" where
  "Copy2FQN_finish env fs dstFQN dst_nil dst lom =
     (let cksumNone = (cksum (md lom) = [])
      in if \<not> cksumNone \<and> copy_cksum fs (FQN lom) \<noteq> cksum (md lom)
         then (None, Done (Some ErrBadDataCksum), lom, fs)
         else
           (let dst2 = (if cksumNone then dst
                        else dst\<lparr>md := (md dst)\<lparr>cksum := copy_cksum fs (FQN lom)\<rparr>\<rparr>)
            in if isMirror env lom dst2
               then Copy2FQN_mirror env fs dstFQN dst_nil dst2 lom
               else case Persist fs dst2 of
                   Some err \<Rightarrow> (Some dst2, Done (Some err), lom, snd (RemoveFile fs (FQN dst2)))
                 | None \<Rightarrow> (Some dst2, Done None, lom, fs)))"

definition Copy2FQN_copy ::
  "lenv \<Rightarrow> fsys \<Rightarrow> string \<Rightarrow> bool \<Rightarrow> LOM \<Rightarrow> LOM \<Rightarrow> LOM option \<times> exit \<times> LOM \<times> fsys" where
  "Copy2FQN_copy env fs dstFQN dst_nil dst lom =
     (let workFQN = GenWorkFQN env dst
      in case CopyFile fs (FQN lom) workFQN of
           (Some err, fs1) \<Rightarrow> (Some dst, Done (Some err), lom, fs1)
         | (None, fs1) \<Rightarrow>
             (case Rename fs1 workFQN dstFQN of
                (Some err, fs2) \<Rightarrow> (Some dst, Done (Some err), lom, snd (RemoveFile fs2 workFQN))
              | (None, fs2) \<Rightarrow> Copy2FQN_finish env fs2 dstFQN dst_nil dst lom))"

definition Copy2FQN ::
  "lenv \<Rightarrow> fsys \<Rightarrow> string \<Rightarrow> LOM \<Rightarrow> LOM option \<times> exit \<times> LOM \<times> fsys" where
  "Copy2FQN env fs dstFQN lom =
     (case CloneInit env lom dstFQN of
        (Some err, dst0) \<Rightarrow> (Some dst0, Done (Some err), lom, fs)
      | (None, dst0) \<Rightarrow>
          (let dst_nil = (\<not> (isMirror env dst0 lom \<and> copies (md lom) \<noteq> []));
               dst1 = set_copies (if dst_nil then [] else copies (md lom)) dst0
           in Copy2FQN_copy env fs dstFQN dst_nil dst1 lom))"




definition haveMpath :: "LOM \<Rightarrow> string \<Rightarrow> bool" where
  "haveMpath lom mpath =
     (if length (copies (md lom)) = 0 then Path (mpathInfo lom) = mpath
      else list_ex (\<lambda>(fqn, mi). Path mi = mpath) (copies (md lom)))"

fun leastUtilNoCopy_loop ::
  "(string \<Rightarrow> int) \<Rightarrow> LOM \<Rightarrow> MPI \<Rightarrow> int \<times> MountpathInfo option \<Rightarrow>
     int \<times> MountpathInfo option" where
  "leastUtilNoCopy_loop utils lom [] acc = acc"
| "leastUtilNoCopy_loop utils lom ((mpath, mpInfo) # rest) (minUtil, mi) =
     (if haveMpath lom mpath \<or> WaitingDD mpInfo
      then leastUtilNoCopy_loop utils lom rest (minUtil, mi)
      else (let util = utils mpath
            in if util < minUtil then leastUtilNoCopy_loop utils lom rest (util, Some mpInfo)
               else leastUtilNoCopy_loop utils lom rest (minUtil, mi)))"

definition LeastUtilNoCopy :: "lenv \<Rightarrow> LOM \<Rightarrow> MountpathInfo option" where
  "LeastUtilNoCopy env lom =
     snd (leastUtilNoCopy_loop (GetAllMpathUtils env) lom (GetAvail env) (101, None))"

text \<open>
  The pruning loop of \<open>ToMpath\<close> ranges over the map as it was when the loop began;
  the only deletions are of the entry being visited, so every entry is visited once.
\<close>

fun prune_copies :: "MPI \<Rightarrow> MPI \<Rightarrow> LOM \<Rightarrow> int \<Rightarrow> LOM \<times> int" where
  "prune_copies availablePaths [] lom gotCopies = (lom, gotCopies)"
| "prune_copies availablePaths ((fqn, mpi) # rest) lom gotCopies =
     (case map_of availablePaths (Path mpi) of
        None \<Rightarrow> prune_copies availablePaths rest (delCopyMd fqn lom) gotCopies
      | Some mpInfo \<Rightarrow>
          if WaitingDD mpInfo
          then prune_copies availablePaths rest (delCopyMd fqn lom) gotCopies
          else prune_copies availablePaths rest lom (gotCopies + 1))"

text \<open>\<open>ToMpath\<close> returns \<open>mi\<close> (\<open>None\<close> is nil), \<open>isHrw\<close> and the LOM as it leaves it.\<close>

definition ToMpath :: "lenv \<Rightarrow> LOM \<Rightarrow> MountpathInfo option \<times> bool \<times> LOM" where
  "ToMpath env lom =
     (let availablePaths = GetAvail env in
      case HrwMpath env (uname (md lom)) of
        Inl err \<Rightarrow> (None, False, lom)
      | Inr hrwMi \<Rightarrow>
          if Path (mpathInfo lom) \<noteq> Path hrwMi then (Some hrwMi, True, lom)
          else if \<not> mirror_enabled lom \<or> mirror_copies lom < 2 then (None, False, lom)
          else
            (case prune_copies availablePaths (copies (md lom)) lom 0 of
               (lom', gotCopies) \<Rightarrow>
                 if mirror_copies lom \<le> gotCopies then (None, False, lom')
                 else (LeastUtilNoCopy env lom', False, lom')))"


text \<open>
  The invariant of \<open>md.copies\<close>: the list represents a map (its keys are distinct),
  and the map is empty, or it holds the LOM's own FQN and has at least two entries.
\<close>

definition wf_copies :: "LOM \<Rightarrow> bool" where
  "wf_copies lom = distinct (map fst (copies (md lom)))"

definition copies_inv :: "LOM \<Rightarrow> bool" where
  "copies_inv lom =
     (copies (md lom) = [] \<or>
      (map_of (copies (md lom)) (FQN lom) \<noteq> None \<and> 2 \<le> length (copies (md lom))))"

definition copies_ok :: "LOM \<Rightarrow> bool" where
  "copies_ok lom = (wf_copies lom \<and> copies_inv lom)"

section \<open>transport/recv.go: the receiving side of the object stream\<close>

text \<open>
  Bytes are \<open>8 word\<close>, the \<open>int64\<close> and \<open>uint64\<close> values of the wire and of the
  statistics are \<open>64 word\<close> (addition wraps, \<open>sint\<close> reads an \<open>int64\<close>), and Go's \<open>int\<close>
  (64 bits) is \<open>int\<close> where it is an offset into the header buffer: an offset that
  would overflow is out of the buffer's bounds here as it is there, and both panic.
  A panic is the value \<open>GoPanic\<close>. \<open>sizeofI64\<close> is 8.
\<close>

type_synonym byte = "8 word"

datatype 'a go = Ret 'a | GoPanic

definition go_bind :: "'a go \<Rightarrow> ('a \<Rightarrow> 'b go) \<Rightarrow> 'b go" where
  "go_bind m f = (case m of GoPanic \<Rightarrow> GoPanic | Ret x \<Rightarrow> f x)"

definition sizeofI64 :: int where
  "sizeofI64 = 8"

text \<open>\<open>from[off:]\<close> and \<open>from[lo:hi]\<close> of a slice whose capacity is its length.\<close>

definition slice_from :: "byte list \<Rightarrow> int \<Rightarrow> byte list go" where
  "slice_from from off =
     (if 0 \<le> off \<and> off \<le> int (length from) then Ret (drop (nat off) from) else GoPanic)"

definition slice :: "byte list \<Rightarrow> int \<Rightarrow> int \<Rightarrow> byte list go" where
  "slice from lo hi =
     (if 0 \<le> lo \<and> lo \<le> hi \<and> hi \<le> int (length from)
      then Ret (take (nat (hi - lo)) (drop (nat lo) from)) else GoPanic)"

text \<open>\<open>binary.BigEndian.Uint64\<close>: the first eight bytes, most significant first.\<close>

definition be_u64 :: "byte list \<Rightarrow> 64 word" where
  "be_u64 b = word_of_nat (foldl (\<lambda>a x. a * 256 + unat x) 0 (take 8 b))"

definition Uint64 :: "byte list \<Rightarrow> 64 word go" where
  "Uint64 b = (if length b < 8 then GoPanic else Ret (be_u64 b))"

definition extString :: "int \<Rightarrow> byte list \<Rightarrow> (int \<times> byte list) go" where
  "extString off from =
     go_bind (slice_from from off) (\<lambda>b.
     go_bind (Uint64 b) (\<lambda>u.
       (let l = sint u; off' = off + sizeofI64
        in go_bind (slice from off' (off' + l)) (\<lambda>str. Ret (off' + l, str)))))"

definition extByte :: "int \<Rightarrow> byte list \<Rightarrow> (int \<times> byte list) go" where
  "extByte off from =
     go_bind (slice_from from off) (\<lambda>b.
     go_bind (Uint64 b) (\<lambda>u.
       (let l = sint u; off' = off + sizeofI64
        in go_bind (slice from off' (off' + l)) (\<lambda>bs. Ret (off' + l, bs)))))"

definition extInt64 :: "int \<Rightarrow> byte list \<Rightarrow> (int \<times> 64 word) go" where
  "extInt64 off from =
     go_bind (slice_from from off) (\<lambda>b.
     go_bind (Uint64 b) (\<lambda>size. Ret (off + sizeofI64, size)))"

definition extUint64 :: "int \<Rightarrow> byte list \<Rightarrow> (int \<times> 64 word) go" where
  "extUint64 off from =
     go_bind (slice_from from off) (\<lambda>b.
     go_bind (Uint64 b) (\<lambda>size. Ret (off + sizeofI64, size)))"

record Header =
  hBucket :: "byte list"
  Objname :: "byte list"
  Opaque :: "byte list"
  Dsize :: "64 word"

definition ExtHeader :: "bool \<Rightarrow> byte list \<Rightarrow> int \<Rightarrow> (Header \<times> 64 word) go" where
  "ExtHeader debug body hlen =
     go_bind (extString 0 body) (\<lambda>(off1, bucket).
     go_bind (extString off1 body) (\<lambda>(off2, objname).
     go_bind (extByte off2 body) (\<lambda>(off3, opaque).
     go_bind (extInt64 off3 body) (\<lambda>(off4, sessid).
     go_bind (extInt64 off4 body) (\<lambda>(off5, dsize).
       if debug \<and> off5 \<noteq> hlen then GoPanic
       else Ret (\<lparr>hBucket = bucket, Objname = objname, Opaque = opaque, Dsize = dsize\<rparr>,
                 sessid))))))"

text \<open>
  The request body: the bytes still to come and the error that ends them (\<open>io.EOF\<close> or
  another error, such as a cancelled request). \<open>Read\<close> fills the buffer it is given
  while bytes last; the read that exhausts them returns what is left together with the
  error. This is the reader \<open>next\<close> expects: it asserts that a short read of the
  16-byte prefix comes with an error.
\<close>

datatype io_error =
    EOF
  | ErrRead
  | ErrBreakage1 int
  | ErrBreakage2 int "64 word" "64 word"
  | ErrInvalidMethod
  | ErrInvalidTrname

record reader =
  data :: "byte list"
  final :: io_error

definition body_Read :: "reader \<Rightarrow> nat \<Rightarrow> byte list \<times> io_error option \<times> reader" where
  "body_Read r k =
     (if k = 0 then ([], None, r)
      else if k \<le> length (data r) then (take k (data r), None, r\<lparr>data := drop k (data r)\<rparr>)
      else (data r, Some (final r), r\<lparr>data := []\<rparr>))"

record iterator =
  body :: reader
  headerBuf :: "byte list"

text \<open>
  The parameters that are not in this file: \<open>MaxHeaderSize\<close> is the length of
  \<open>headerBuf\<close> (\<open>receive\<close> makes the buffer of that size), \<open>xoshiro256.Hash\<close> is
  \<open>hash\<close>, \<open>hdr.IsLast()\<close> is \<open>isLast\<close>, and \<open>debug\<close> is the package variable.
  \<open>next\<close> returns \<open>obj\<close> (the header of the object reader, \<open>None\<close> for nil),
  \<open>sessid\<close>, \<open>hl64\<close> and \<open>err\<close>, and the iterator, whose body and buffer it has
  advanced.
\<close>

type_synonym frame = "Header option \<times> 64 word \<times> 64 word \<times> io_error option"

definition next_header ::
  "bool \<Rightarrow> (Header \<Rightarrow> bool) \<Rightarrow> 64 word \<Rightarrow> int \<Rightarrow> iterator \<Rightarrow> frame go \<times> iterator" where
  "next_header debug isLast hl64 hlen it =
     (if hlen < 0 then (GoPanic, it)
      else case body_Read (body it) (nat hlen) of
        (bs, err, b') \<Rightarrow>
          (let buf = bs @ drop (length bs) (headerBuf it);
               it' = it\<lparr>body := b', headerBuf := buf\<rparr>
           in if length bs = 0 then (Ret (None, 0, hl64, err), it')
              else if debug \<and> int (length bs) \<noteq> hlen then (GoPanic, it')
              else case ExtHeader debug buf hlen of
                  GoPanic \<Rightarrow> (GoPanic, it')
                | Ret (hdr, sessid) \<Rightarrow>
                    if isLast hdr then (Ret (None, sessid, hl64, Some EOF), it')
                    else (Ret (Some hdr, sessid, hl64, err), it')))"

definition next_frame ::
  "(64 word \<Rightarrow> 64 word) \<Rightarrow> bool \<Rightarrow> (Header \<Rightarrow> bool) \<Rightarrow> iterator \<Rightarrow> frame go \<times> iterator" where
  "next_frame hash debug isLast it =
     (if int (length (headerBuf it)) < sizeofI64 * 2 then (GoPanic, it)
      else case body_Read (body it) (nat (sizeofI64 * 2)) of
        (bs, err, b') \<Rightarrow>
          (let buf = bs @ drop (length bs) (headerBuf it);
               it' = it\<lparr>body := b', headerBuf := buf\<rparr>
           in if int (length bs) < sizeofI64 * 2
              then (if err = None then (GoPanic, it') else (Ret (None, 0, 0, err), it'))
              else
                (let hl64 = be_u64 buf;
                     hlen = sint hl64
                 in if hlen > int (length buf)
                    then (Ret (None, 0, hl64, Some (ErrBreakage1 hlen)), it')
                    else
                      (let checksum = be_u64 (drop (nat sizeofI64) buf);
                           chc = hash hl64
                       in if checksum \<noteq> chc
                          then (Ret (None, 0, hl64, Some (ErrBreakage2 hlen checksum chc)), it')
                          else if debug \<and> \<not> hlen < int (length buf) then (GoPanic, it')
                          else next_header debug isLast (hl64 + word_of_int (sizeofI64 * 2))
                                 hlen it'))))"


text \<open>
  The handler: the statistics of the live sessions and the closing times of the old
  ones. \<open>Stats\<close> fields are \<open>int64\<close> counters; a \<open>time.Time\<close> is a number of
  nanoseconds and \<open>time.Since(t)\<close> is \<open>now - t\<close>, where \<open>now\<close> is the clock when the
  request ends (the only place where \<open>receive\<close> reads it).
\<close>

record Stats =
  Num :: "64 word"
  Size :: "64 word"
  Offset :: "64 word"

record handler =
  trname :: string
  sessions :: "64 word \<rightharpoonup> Stats"
  oldSessions :: "64 word \<rightharpoonup> int"

definition cleanupTimeout :: int where
  "cleanupTimeout = 60 * 1000000000"

datatype outcome = Finished | BadRequest io_error | Crashed

text \<open>
  The pointer \<open>stats\<close> of the loop is the entry of \<open>sessid\<close> in \<open>h.sessions\<close>; it is
  non-nil exactly when \<open>sessid\<close> is not 0. \<open>start_of_stream\<close> is lines 170-178,
  \<open>add_offset\<close> lines 179-184, \<open>count_object\<close> lines 187-189 and \<open>cleanup\<close> lines
  198-204 of \<open>receive\<close>.
\<close>

definition stats_of :: "handler \<Rightarrow> 64 word \<Rightarrow> Stats" where
  "stats_of h sessid =
     (case sessions h sessid of Some st \<Rightarrow> st | None \<Rightarrow> \<lparr>Num = 0, Size = 0, Offset = 0\<rparr>)"

definition start_of_stream :: "64 word \<Rightarrow> handler \<Rightarrow> handler" where
  "start_of_stream sessid h =
     (if sessid \<noteq> 0 \<and> sessions h sessid = None
      then h\<lparr>sessions := (sessions h)(sessid \<mapsto> \<lparr>Num = 0, Size = 0, Offset = 0\<rparr>)\<rparr>
      else h)"

definition add_offset :: "64 word \<Rightarrow> 64 word \<Rightarrow> handler \<Rightarrow> handler" where
  "add_offset sessid hl64 h =
     (if sessid \<noteq> 0 \<and> hl64 \<noteq> 0
      then h\<lparr>sessions := (sessions h)(sessid \<mapsto>
             (stats_of h sessid)\<lparr>Offset := Offset (stats_of h sessid) + hl64\<rparr>)\<rparr>
      else h)"

definition count_object :: "64 word \<Rightarrow> 64 word \<Rightarrow> handler \<Rightarrow> handler" where
  "count_object sessid dsize h =
     h\<lparr>sessions := (sessions h)(sessid \<mapsto>
        \<lparr>Num = Num (stats_of h sessid) + 1,
         Size = Size (stats_of h sessid) + dsize,
         Offset = Offset (stats_of h sessid) + dsize\<rparr>)\<rparr>"

definition expired :: "int \<Rightarrow> handler \<Rightarrow> 64 word \<Rightarrow> bool" where
  "expired now h sid =
     (case oldSessions h sid of None \<Rightarrow> False
      | Some timeClosed \<Rightarrow> now - timeClosed > cleanupTimeout)"

definition cleanup :: "int \<Rightarrow> 64 word \<Rightarrow> handler \<Rightarrow> handler" where
  "cleanup now sessid h =
     h\<lparr>sessions := (\<lambda>sid. if expired now h sid then None else sessions h sid),
       oldSessions :=
         (\<lambda>sid. if expired now h sid then None else oldSessions h sid)(sessid \<mapsto> now)\<rparr>"

text \<open>
  The callback reads the object from the body it shares with the iterator;
  \<open>callback hdr bytes\<close> is the number of bytes it takes.
\<close>

definition drain :: "(Header \<Rightarrow> byte list \<Rightarrow> nat) \<Rightarrow> Header \<Rightarrow> iterator \<Rightarrow> iterator" where
  "drain callback hdr it =
     it\<lparr>body := (body it)\<lparr>data := drop (callback hdr (data (body it))) (data (body it))\<rparr>\<rparr>"

lemma body_Read_length:
  "body_Read r k = (bs, err, r') \<Longrightarrow>
     length (data r') \<le> length (data r) \<and>
     (length bs = k \<and> 0 < k \<longrightarrow> length (data r') + k = length (data r))"
  by (auto simp: body_Read_def split: if_splits)

lemma next_header_length:
  "next_header debug isLast hl64 hlen it = (res, it') \<Longrightarrow>
     length (data (body it')) \<le> length (data (body it))"
proof -
  assume a: "next_header debug isLast hl64 hlen it = (res, it')"
  obtain bs err b' where r: "body_Read (body it) (nat hlen) = (bs, err, b')"
    by (cases "body_Read (body it) (nat hlen)") auto
  from body_Read_length [OF r] have "length (data b') \<le> length (data (body it))" by simp
  with a r show ?thesis
    by (auto simp: next_header_def Let_def split: if_splits go.splits prod.splits)
qed

lemma next_frame_consumes:
  assumes a: "next_frame hash debug isLast it = (Ret (obj, sessid, hl64, err), it')"
    and c: "obj \<noteq> None \<or> err = None"
  shows "length (data (body it')) < length (data (body it))"
proof -
  obtain bs e b' where r: "body_Read (body it) (nat (sizeofI64 * 2)) = (bs, e, b')"
    by (cases "body_Read (body it) (nat (sizeofI64 * 2))") auto
  let ?it1 = "it\<lparr>body := b', headerBuf := bs @ drop (length bs) (headerBuf it)\<rparr>"
  from a r c have full: "\<not> int (length bs) < sizeofI64 * 2"
    by (auto simp: next_frame_def Let_def split: if_splits)
  from body_Read_length [OF r] have "length bs \<le> nat (sizeofI64 * 2)"
    using r by (auto simp: body_Read_def split: if_splits)
  with full have "length bs = nat (sizeofI64 * 2)" by (simp add: sizeofI64_def)
  with body_Read_length [OF r] have sh: "length (data b') + 16 = length (data (body it))"
    by (simp add: sizeofI64_def)
  from a r c full obtain h l where
    "next_header debug isLast h l ?it1 = (Ret (obj, sessid, hl64, err), it')"
    by (auto simp: next_frame_def Let_def split: if_splits)
  from next_header_length [OF this] have "length (data (body it')) \<le> length (data b')" by simp
  with sh show ?thesis by simp
qed

text \<open>
  The loop of \<open>receive\<close>. It returns how the request ends, the handler, and the frames
  that \<open>next\<close> yielded, in order (the values \<open>obj\<close>, \<open>sessid\<close>, \<open>hl64\<close>, \<open>err\<close> of
  each iteration): the callback is invoked once for each of them that carries an
  object. After the callback, \<open>stats\<close> is dereferenced: with \<open>sessid = 0\<close> it is nil
  and the handler panics. The loop ends because every iteration that continues has read
  the 16 bytes of a frame prefix.
\<close>

function recv_loop ::
  "(64 word \<Rightarrow> 64 word) \<Rightarrow> bool \<Rightarrow> (Header \<Rightarrow> bool) \<Rightarrow> (Header \<Rightarrow> byte list \<Rightarrow> nat) \<Rightarrow>
     int \<Rightarrow> handler \<Rightarrow> iterator \<Rightarrow> outcome \<times> handler \<times> frame list" where
  "recv_loop hash debug isLast callback now h it =
     (case next_frame hash debug isLast it of
        (GoPanic, it') \<Rightarrow> (Crashed, h, [])
      | (Ret (obj, sessid, hl64, err), it') \<Rightarrow>
          (let h2 = add_offset sessid hl64 (start_of_stream sessid h)
           in case obj of
                Some hdr \<Rightarrow>
                  if sessid = 0 then (Crashed, h2, [(obj, sessid, hl64, err)])
                  else (case recv_loop hash debug isLast callback now
                               (count_object sessid (Dsize hdr) h2) (drain callback hdr it') of
                          (out, h', tr) \<Rightarrow> (out, h', (obj, sessid, hl64, err) # tr))
              | None \<Rightarrow>
                  (case err of
                     Some e \<Rightarrow>
                       ((if e \<noteq> EOF then BadRequest e else Finished),
                        (if sessid \<noteq> 0 then cleanup now sessid h2 else h2),
                        [(obj, sessid, hl64, err)])
                   | None \<Rightarrow>
                       (case recv_loop hash debug isLast callback now h2 it' of
                          (out, h', tr) \<Rightarrow> (out, h', (obj, sessid, hl64, err) # tr)))))"
  by pat_completeness auto
termination
proof (relation "measure (\<lambda>(hash, debug, isLast, callback, now, h, it). length (data (body it)))",
    goal_cases)
  case 1
  show ?case by simp
next
  case (2 hash debug isLast callback now h it x y x1 xa ya xb yb xc yaa xd)
  then have "next_frame hash debug isLast it = (Ret (xa, xb, xc, yaa), y)"
    and "xa \<noteq> None \<or> yaa = None" by auto
  from next_frame_consumes [OF this] show ?case by simp
next
  case (3 hash debug isLast callback now h it x y x1 xa ya xb yb xc yaa xd x2)
  then have "next_frame hash debug isLast it = (Ret (xa, xb, xc, yaa), y)"
    and "xa \<noteq> None \<or> yaa = None" by auto
  from next_frame_consumes [OF this] show ?case by (simp add: drain_def)
qed


declare recv_loop.simps [simp del]

record request =
  Method :: string
  PathBase :: string
  Body :: reader

text \<open>
  \<open>receive\<close>: \<open>PathBase\<close> is \<open>path.Base(r.URL.Path)\<close>; both rejections answer
  through \<open>common.InvalidHandlerDetailed\<close>.
\<close>

definition receive ::
  "nat \<Rightarrow> (64 word \<Rightarrow> 64 word) \<Rightarrow> bool \<Rightarrow> (Header \<Rightarrow> bool) \<Rightarrow> (Header \<Rightarrow> byte list \<Rightarrow> nat) \<Rightarrow>
     int \<Rightarrow> handler \<Rightarrow> request \<Rightarrow> outcome \<times> handler \<times> frame list" where
  "receive MaxHeaderSize hash debug isLast callback now h r =
     (if Method r \<noteq> ''PUT'' then (BadRequest ErrInvalidMethod, h, [])
      else if PathBase r \<noteq> trname h then (BadRequest ErrInvalidTrname, h, [])
      else recv_loop hash debug isLast callback now h
             \<lparr>body = Body r, headerBuf = replicate MaxHeaderSize 0\<rparr>)"

text \<open>
  What a request did for one session, read off its frames: the frames of the session,
  the objects delivered to the callback, and the sum of \<open>hl64 + Dsize\<close> over the
  session's frames (\<open>hl64\<close> is the header length plus 16; the frame that ends the
  session carries no object and adds \<open>hl64\<close> alone).
\<close>

definition session_frames :: "64 word \<Rightarrow> frame list \<Rightarrow> frame list" where
  "session_frames sessid tr = filter (\<lambda>(obj, sid, hl64, err). sid = sessid) tr"

definition delivered :: "64 word \<Rightarrow> frame list \<Rightarrow> Header list" where
  "delivered sessid tr =
     concat (map (\<lambda>(obj, sid, hl64, err). case obj of Some hdr \<Rightarrow> [hdr] | None \<Rightarrow> [])
       (session_frames sessid tr))"

definition offset_sum :: "64 word \<Rightarrow> frame list \<Rightarrow> 64 word" where
  "offset_sum sessid tr =
     sum_list (map (\<lambda>(obj, sid, hl64, err).
         hl64 + (case obj of Some hdr \<Rightarrow> Dsize hdr | None \<Rightarrow> 0))
       (session_frames sessid tr))"

definition session_stats :: "Stats \<Rightarrow> 64 word \<Rightarrow> frame list \<Rightarrow> Stats" where
  "session_stats s0 sessid tr =
     \<lparr>Num = Num s0 + word_of_nat (length (delivered sessid tr)),
      Size = Size s0 + sum_list (map Dsize (delivered sessid tr)),
      Offset = Offset s0 + offset_sum sessid tr\<rparr>"

definition after_frame :: "frame \<Rightarrow> handler \<Rightarrow> handler" where
  "after_frame f h =
     (case f of (obj, sid, hl64, err) \<Rightarrow>
        (let h2 = add_offset sid hl64 (start_of_stream sid h)
         in case obj of Some hdr \<Rightarrow> count_object sid (Dsize hdr) h2 | None \<Rightarrow> h2))"


definition ends_session :: "frame list \<Rightarrow> 64 word \<Rightarrow> bool" where
  "ends_session tr sid =
     (tr \<noteq> [] \<and> sid \<noteq> 0 \<and> (\<exists>hl64 e. last tr = (None, sid, hl64, Some e)))"

definition cleanup_rel :: "int \<Rightarrow> handler \<Rightarrow> handler \<Rightarrow> frame list \<Rightarrow> bool" where
  "cleanup_rel now h h' tr =
     ((\<forall>sid. ends_session tr sid \<longrightarrow>
         oldSessions h' =
           (\<lambda>s. if expired now h s then None else oldSessions h s)(sid \<mapsto> now) \<and>
         (\<forall>s. expired now h s \<longrightarrow> sessions h' s = None)) \<and>
      ((\<forall>sid. \<not> ends_session tr sid) \<longrightarrow> oldSessions h' = oldSessions h))"


section \<open>ais/tgtasync.go: the asynchronous bucket requests\<close>

















section \<open>Sample inputs\<close>

definition mpA :: MountpathInfo where
  "mpA = \<lparr>Path = ''/A'', WaitingDD = False\<rparr>"

definition mpB :: MountpathInfo where
  "mpB = \<lparr>Path = ''/B'', WaitingDD = False\<rparr>"

definition mpC :: MountpathInfo where
  "mpC = \<lparr>Path = ''/C'', WaitingDD = False\<rparr>"

definition fs_with :: "(string \<Rightarrow> bool) \<Rightarrow> fsys" where
  "fs_with bad = \<lparr>files = {''/A/o'', ''/B/o'', ''/C/o''}, setxattr_fails = bad,
      Access = (\<lambda>f. AccessErr), remove_fails = (\<lambda>f. False), persist_fails = (\<lambda>f. False),
      copy_fails = (\<lambda>f g. False), rename_fails = (\<lambda>f g. False), copy_cksum = (\<lambda>f. []),
      loads_equal = (\<lambda>f. False)\<rparr>"

definition fs_ok :: fsys where
  "fs_ok = fs_with (\<lambda>f. False)"

definition fs_badB :: fsys where
  "fs_badB = fs_with (\<lambda>f. f = ''/B/o'')"

definition lom_with :: "MPI \<Rightarrow> LOM" where
  "lom_with c = \<lparr>FQN = ''/A/o'', HrwFQN = ''/A/o'', ObjName = ''o'',
      Bucket = \<lparr>Name = ''b'', Provider = ''ais'', BackendID = 0\<rparr>, mpathInfo = mpA,
      md = \<lparr>uname = ''b/o'', copies = c, dirty = False, cksum = []\<rparr>,
      mirror_enabled = True, mirror_copies = 2, wp_immediate = True\<rparr>"

definition lom_abc :: LOM where
  "lom_abc = lom_with [(''/A/o'', mpA), (''/B/o'', mpB), (''/C/o'', mpC)]"

definition lom_ac :: LOM where
  "lom_ac = lom_with [(''/A/o'', mpA), (''/C/o'', mpC)]"

definition env_u :: lenv where
  "env_u = \<lparr>GetAvail = [(''/A'', mpA), (''/B'', mpB), (''/C'', mpC)],
      GetAllMpathUtils = (\<lambda>p. if p = ''/A'' then 50 else 10),
      HrwMpath = (\<lambda>u. if u = ''b/o'' then Inr mpA else Inl ErrHrw),
      MakePathFQN = (\<lambda>mi b ct n. case ct of ObjectType \<Rightarrow> Path mi @ ''/'' @ n
                                   | WorkfileType \<Rightarrow> Path mi @ ''/w/'' @ n),
      Bck_Equal = (\<lambda>a b. a = b),
      CloneInit = (\<lambda>lom f. (None, lom\<lparr>FQN := f, mpathInfo := mpB\<rparr>)),
      GenWorkFQN = (\<lambda>dst. FQN dst @ ''.work''),
      WorkfileCopy = ''copy''\<rparr>"


text \<open>
  A sample stream: frames with empty bucket, object name and opaque fields (a header of
  40 bytes), a hash that is the identity, a last-frame marker of \<open>Dsize = 0\<close>, and a
  callback that reads the whole object.
\<close>

definition u64 :: "nat \<Rightarrow> byte list" where
  "u64 n = [0, 0, 0, 0, 0, 0, 0, of_nat n]"

definition sample_frame :: "nat \<Rightarrow> nat \<Rightarrow> byte list \<Rightarrow> byte list" where
  "sample_frame sid dsize payload =
     u64 40 @ u64 40 @ u64 0 @ u64 0 @ u64 0 @ u64 sid @ u64 dsize @ payload"

definition sample_request :: "byte list \<Rightarrow> request" where
  "sample_request bs = \<lparr>Method = ''PUT'', PathBase = ''t'', Body = \<lparr>data = bs, final = EOF\<rparr>\<rparr>"

definition sample_isLast :: "Header \<Rightarrow> bool" where
  "sample_isLast hdr = (Dsize hdr = 0)"

definition sample_callback :: "Header \<Rightarrow> byte list \<Rightarrow> nat" where
  "sample_callback hdr bs = unat (Dsize hdr)"

definition sample_handler :: handler where
  "sample_handler = \<lparr>trname = ''t'', sessions = [7 \<mapsto> \<lparr>Num = 3, Size = 30, Offset = 300\<rparr>],
     oldSessions = [7 \<mapsto> 0]\<rparr>"

definition sample_now :: int where
  "sample_now = 61000000001"

definition run_closed :: "outcome \<times> handler \<times> frame list" where
  "run_closed = receive 40 (\<lambda>x. x) False sample_isLast sample_callback sample_now sample_handler
     (sample_request (sample_frame 8 1 [0xAB] @ sample_frame 8 0 []))"

definition run_open :: "outcome \<times> handler \<times> frame list" where
  "run_open = receive 40 (\<lambda>x. x) False sample_isLast sample_callback sample_now sample_handler
     (sample_request (sample_frame 8 1 [0xAB]))"

definition huge_prefix :: "byte list" where
  "huge_prefix = [0x80, 0, 0, 0, 0, 0, 0, 0, 0x80, 0, 0, 0, 0, 0, 0, 0]"

definition huge_it :: iterator where
  "huge_it = \<lparr>body = \<lparr>data = huge_prefix, final = EOF\<rparr>, headerBuf = replicate 40 0\<rparr>"



section \<open>Properties of copy management\<close>

lemma persist_loop_props:
  "persist_loop fs lom = (l, dropped, ns) \<Longrightarrow>
     persistMdOnCopies fs l = None \<and>
     length (copies (md l)) + length dropped \<le> length (copies (md lom)) \<and>
     set dropped \<subseteq> fst ` set (copies (md lom)) \<and>
     fst ` set (copies (md l)) \<subseteq> fst ` set (copies (md lom)) - set dropped \<and>
     distinct dropped \<and> set ns \<subseteq> set dropped"
proof (induction fs lom arbitrary: l dropped ns rule: persist_loop.induct)
  case (1 fs lom)
  show ?case
  proof (cases "persistMdOnCopies fs lom")
    case None
    with "1.prems" show ?thesis
      by (simp add: persist_loop.simps [of fs lom])
  next
    case (Some f)
    obtain l1 d1 n1 where r: "persist_loop fs (delCopyMd f lom) = (l1, d1, n1)"
      by (cases "persist_loop fs (delCopyMd f lom)") auto
    from "1.prems" Some r have eqs: "l = l1" "dropped = f # d1"
      "ns = (if Access fs f = AccessErr then [f] else []) @ n1"
      by (simp_all add: persist_loop.simps [of fs lom] Let_def)
    have ih: "persistMdOnCopies fs l1 = None \<and>
     length (copies (md l1)) + length d1 \<le> length (copies (md (delCopyMd f lom))) \<and>
     set d1 \<subseteq> fst ` set (copies (md (delCopyMd f lom))) \<and>
     fst ` set (copies (md l1)) \<subseteq> fst ` set (copies (md (delCopyMd f lom))) - set d1 \<and>
     distinct d1 \<and> set n1 \<subseteq> set d1"
      using "1.IH" [OF Some refl refl r] .
    have fin: "f \<in> fst ` set (copies (md lom))"
      using persistMd_Some_in [of "setxattr_fails fs" "copies (md lom)" f] Some
      by (simp add: persistMdOnCopies_def)
    have lt: "length (copies (md (delCopyMd f lom))) < length (copies (md lom))"
      using fin by (rule delCopyMd_length_less)
    have sub: "fst ` set (copies (md (delCopyMd f lom))) \<subseteq> fst ` set (copies (md lom)) - {f}"
      by (rule delCopyMd_keys_subset)
    define K0 where "K0 = fst ` set (copies (md lom))"
    define K1 where "K1 = fst ` set (copies (md (delCopyMd f lom)))"
    define K where "K = fst ` set (copies (md l1))"
    have a: "K1 \<subseteq> K0 - {f}" "f \<in> K0" "set d1 \<subseteq> K1" "K \<subseteq> K1 - set d1"
      using sub fin ih by (simp_all add: K0_def K1_def K_def)
    have c1: "persistMdOnCopies fs l1 = None" using ih by simp
    have c2: "length (copies (md l1)) + length (f # d1) \<le> length (copies (md lom))"
      using ih lt by simp
    have c3: "set (f # d1) \<subseteq> K0" using a by auto
    have c4: "K \<subseteq> K0 - set (f # d1)" using a by auto
    have c5: "distinct (f # d1)" using a ih by auto
    have c6: "set ((if Access fs f = AccessErr then [f] else []) @ n1) \<subseteq> set (f # d1)"
      using ih by auto
    show ?thesis
      unfolding eqs using c1 c2 c3 c4 c5 c6 by (simp only: K0_def K_def simp_thms)
  qed
qed


lemma syncMetaWithCopies_keys:
  "syncMetaWithCopies fs lom = (e, l, dropped, ns) \<Longrightarrow>
     e = None \<and> fst ` set (copies (md l)) \<subseteq> fst ` set (copies (md lom))"
proof -
  assume a: "syncMetaWithCopies fs lom = (e, l, dropped, ns)"
  show ?thesis
  proof (cases "HasCopies lom \<and> wp_immediate lom")
    case True
    with a have "persist_loop fs lom = (l, dropped, ns)" and "e = None"
      by (auto simp: syncMetaWithCopies_def split: prod.splits)
    then show ?thesis
      using persist_loop_props [of fs lom l dropped ns] by blast
  next
    case False
    with a show ?thesis
      by (auto simp: syncMetaWithCopies_def makeDirty_def split: if_splits)
  qed
qed

lemma fold_delCopyMd_keys:
  "fst ` set (copies (md (fold delCopyMd xs lom))) \<subseteq> fst ` set (copies (md lom)) - set xs"
proof (induction xs arbitrary: lom)
  case Nil
  show ?case by simp
next
  case (Cons x xs)
  show ?case
    using Cons.IH [of "delCopyMd x lom"] delCopyMd_keys_subset [of x lom] by auto
qed

lemma delCopies_md_fail:
  "delCopies_md n F lom = (Some e, lom') \<Longrightarrow>
     \<exists>pre c post. F = pre @ c # post \<and> e = ErrCopyDoesNotExist c n \<and>
        lom' = fold delCopyMd pre lom \<and> map_of (copies (md lom')) c = None"
proof (induction F arbitrary: lom)
  case Nil
  then show ?case by simp
next
  case (Cons x xs)
  show ?case
  proof (cases "map_of (copies (md lom)) x = None")
    case True
    with Cons.prems have "e = ErrCopyDoesNotExist x n" "lom' = lom" by simp_all
    with True have "x # xs = [] @ x # xs \<and> e = ErrCopyDoesNotExist x n \<and>
        lom' = fold delCopyMd [] lom \<and> map_of (copies (md lom')) x = None" by simp
    then show ?thesis by blast
  next
    case False
    with Cons.prems have "delCopies_md n xs (delCopyMd x lom) = (Some e, lom')" by simp
    from Cons.IH [OF this] obtain pre c post where
      "xs = pre @ c # post" "e = ErrCopyDoesNotExist c n"
      "lom' = fold delCopyMd pre (delCopyMd x lom)" "map_of (copies (md lom')) c = None"
      by blast
    then have "x # xs = (x # pre) @ c # post \<and> e = ErrCopyDoesNotExist c n \<and>
        lom' = fold delCopyMd (x # pre) lom \<and> map_of (copies (md lom')) c = None" by simp
    then show ?thesis by blast
  qed
qed

lemma delCopies_md_ok:
  "delCopies_md n F lom = (None, lom') \<Longrightarrow> lom' = fold delCopyMd F lom"
  by (induction F arbitrary: lom) (auto split: if_splits)

lemma DelCopies_Some:
  assumes a: "DelCopies fs F lom = (Some e, lom', fs', ns)"
  shows "\<exists>pre c post. F = pre @ c # post \<and> e = ErrCopyDoesNotExist c (NumCopies lom) \<and>
         lom' = fold delCopyMd pre lom \<and> map_of (copies (md lom')) c = None"
proof -
  obtain r l1 where d: "delCopies_md (NumCopies lom) F lom = (r, l1)"
    by (cases "delCopies_md (NumCopies lom) F lom") auto
  show ?thesis
  proof (cases r)
    case None
    obtain e2 l2 dr n2 where s: "syncMetaWithCopies fs l1 = (e2, l2, dr, n2)"
      by (cases "syncMetaWithCopies fs l1") auto
    from syncMetaWithCopies_keys [OF s] have "e2 = None" by simp
    with a d None s show ?thesis by (simp add: DelCopies_def)
  next
    case (Some e1)
    with a d have "e1 = e" "l1 = lom'" by (simp_all add: DelCopies_def)
    with d Some have "delCopies_md (NumCopies lom) F lom = (Some e, lom')" by simp
    from delCopies_md_fail [OF this] show ?thesis .
  qed
qed

lemma DelCopies_None:
  assumes a: "DelCopies fs F lom = (None, lom', fs', ns)"
  shows "fst ` set (copies (md lom')) \<subseteq> fst ` set (copies (md lom)) - set F"
proof -
  obtain r l1 where d: "delCopies_md (NumCopies lom) F lom = (r, l1)"
    by (cases "delCopies_md (NumCopies lom) F lom") auto
  with a have r: "r = None" by (cases r) (simp_all add: DelCopies_def)
  obtain e2 l2 dr n2 where s: "syncMetaWithCopies fs l1 = (e2, l2, dr, n2)"
    by (cases "syncMetaWithCopies fs l1") auto
  from syncMetaWithCopies_keys [OF s]
  have k: "e2 = None" "fst ` set (copies (md l2)) \<subseteq> fst ` set (copies (md l1))" by simp_all
  from a d r s k have "lom' = l2" by (simp add: DelCopies_def)
  moreover from d r have "l1 = fold delCopyMd F lom" by (simp add: delCopies_md_ok)
  ultimately show ?thesis
    using k fold_delCopyMd_keys [of F lom] by blast
qed


lemmas sample_defs = lom_abc_def lom_ac_def lom_with_def fs_ok_def fs_badB_def fs_with_def

lemmas sample_defs2 = sample_defs env_u_def mpA_def mpB_def mpC_def

lemmas copy_eval = NumCopies_def HasCopies_def delCopyMd_def set_copies_def
  syncMetaWithCopies_def persistMdOnCopies_def persist_loop.simps

lemma DelCopies_sample_fail:
  "DelCopies fs_ok [''/B/o'', ''/X/o''] lom_abc =
     (Some (ErrCopyDoesNotExist ''/X/o'' 3), lom_ac, fs_ok, [])"
  by (simp add: DelCopies_def sample_defs copy_eval)

lemma DelCopies_sample_ok:
  "DelCopies fs_ok [''/B/o''] lom_abc = (None, lom_ac, removeCopies fs_ok [''/B/o''], [])"
  by (simp add: DelCopies_def sample_defs copy_eval)

lemma sync_sample_badB:
  "syncMetaWithCopies fs_badB lom_abc = (None, lom_ac, [''/B/o''], [''/B/o''])"
  by (simp add: sample_defs copy_eval)

text \<open>
  C1, as the claim states it, fails: \<open>DelCopies\<close> checks and deletes one FQN at a time,
  so when a later FQN is absent the earlier ones are already gone from \<open>md.copies\<close>.
  Here \<open>/B/o\<close> is a copy and \<open>/X/o\<close> is not: the call fails with the
  copy-does-not-exist error for \<open>/X/o\<close>, and \<open>/B/o\<close> has been deleted.
\<close>

theorem DelCopies_not_atomic_counterexample:
  "map_of (copies (md lom_abc)) ''/X/o'' = None \<and>
   fst (DelCopies fs_ok [''/B/o'', ''/X/o''] lom_abc) = Some (ErrCopyDoesNotExist ''/X/o'' 3) \<and>
   copies (md (fst (snd (DelCopies fs_ok [''/B/o'', ''/X/o''] lom_abc)))) =
     [(''/A/o'', mpA), (''/C/o'', mpC)] \<and>
   copies (md (fst (snd (DelCopies fs_ok [''/B/o'', ''/X/o''] lom_abc)))) \<noteq> copies (md lom_abc)"
  by (simp add: DelCopies_sample_fail) (simp add: sample_defs)

text \<open>
  C1, amended: if \<open>DelCopies F\<close> fails, it fails with the copy-does-not-exist error for
  an element \<open>c\<close> of \<open>F\<close> that is absent from \<open>md.copies\<close> when its turn comes, and
  \<open>md.copies\<close> is what \<open>delCopyMd\<close> leaves after deleting exactly the elements of \<open>F\<close>
  before \<open>c\<close> (so it is unchanged when \<open>c\<close> is the first element); and whenever
  \<open>DelCopies F\<close> succeeds, no element of \<open>F\<close> remains in \<open>md.copies\<close>.
\<close>

theorem DelCopies_partial_then_clean:
  "(\<forall>e lom' fs' ns. DelCopies fs F lom = (Some e, lom', fs', ns) \<longrightarrow>
      (\<exists>pre c post. F = pre @ c # post \<and> e = ErrCopyDoesNotExist c (NumCopies lom) \<and>
         lom' = fold delCopyMd pre lom \<and> map_of (copies (md lom')) c = None)) \<and>
   (\<forall>lom' fs' ns. DelCopies fs F lom = (None, lom', fs', ns) \<longrightarrow>
      (\<forall>f \<in> set F. map_of (copies (md lom')) f = None))"
proof -
  have p2: "map_of (copies (md lom')) f = None"
    if "DelCopies fs F lom = (None, lom', fs', ns)" and "f \<in> set F" for lom' fs' ns f
    using DelCopies_None [OF that(1)] that(2) by (auto simp: map_of_eq_None_iff)
  show ?thesis
    using DelCopies_Some [of fs F lom] p2 by blast
qed


theorem DelCopies_partial_then_clean_witness:
  "(\<exists>pre c post. [''/B/o'', ''/X/o''] = pre @ c # post \<and>
       ErrCopyDoesNotExist ''/X/o'' 3 = ErrCopyDoesNotExist c (NumCopies lom_abc) \<and>
       lom_ac = fold delCopyMd pre lom_abc \<and> map_of (copies (md lom_ac)) c = None) \<and>
   fst (DelCopies fs_ok [''/B/o''] lom_abc) = None \<and>
   map_of (copies (md lom_ac)) ''/B/o'' = None"
  using DelCopies_partial_then_clean [of fs_ok "[''/B/o'', ''/X/o'']" lom_abc]
    DelCopies_partial_then_clean [of fs_ok "[''/B/o'']" lom_abc]
    DelCopies_sample_fail DelCopies_sample_ok
  by simp

text \<open>
  C9: \<open>syncMetaWithCopies\<close> is a total function (the persist loop is defined by
  recursion on the number of copies). Without copies it returns at once; with a write
  policy that is not immediate it marks the metadata dirty and returns; otherwise the
  loop ends with a successful persist (trivially so on an emptied map) after dropping at
  most as many FQNs as there were copies, each a copy before and none a copy after.
  Every failing iteration removes the failing FQN and makes the map strictly smaller.
\<close>

theorem syncMetaWithCopies_terminates:
  "(\<not> HasCopies lom \<longrightarrow> syncMetaWithCopies fs lom = (None, lom, [], [])) \<and>
   (HasCopies lom \<and> \<not> wp_immediate lom \<longrightarrow>
      syncMetaWithCopies fs lom = (None, makeDirty lom, [], [])) \<and>
   (HasCopies lom \<and> wp_immediate lom \<longrightarrow>
      (\<exists>lom' dropped ns. syncMetaWithCopies fs lom = (None, lom', dropped, ns) \<and>
         length dropped \<le> length (copies (md lom)) \<and>
         length (copies (md lom')) + length dropped \<le> length (copies (md lom)) \<and>
         distinct dropped \<and>
         set dropped \<subseteq> fst ` set (copies (md lom)) \<and>
         fst ` set (copies (md lom')) \<subseteq> fst ` set (copies (md lom)) - set dropped \<and>
         persistMdOnCopies fs lom' = None)) \<and>
   (\<forall>l f. persistMdOnCopies fs l = Some f \<longrightarrow>
      map_of (copies (md l)) f \<noteq> None \<and>
      map_of (copies (md (delCopyMd f l))) f = None \<and>
      length (copies (md (delCopyMd f l))) < length (copies (md l)))"
proof (intro conjI allI impI)
  assume "\<not> HasCopies lom"
  then show "syncMetaWithCopies fs lom = (None, lom, [], [])"
    by (simp add: syncMetaWithCopies_def)
next
  assume "HasCopies lom \<and> \<not> wp_immediate lom"
  then show "syncMetaWithCopies fs lom = (None, makeDirty lom, [], [])"
    by (simp add: syncMetaWithCopies_def)
next
  assume h: "HasCopies lom \<and> wp_immediate lom"
  obtain l d n where p: "persist_loop fs lom = (l, d, n)"
    by (cases "persist_loop fs lom") auto
  with h have "syncMetaWithCopies fs lom = (None, l, d, n)"
    by (simp add: syncMetaWithCopies_def)
  with persist_loop_props [OF p]
  show "\<exists>lom' dropped ns. syncMetaWithCopies fs lom = (None, lom', dropped, ns) \<and>
         length dropped \<le> length (copies (md lom)) \<and>
         length (copies (md lom')) + length dropped \<le> length (copies (md lom)) \<and>
         distinct dropped \<and>
         set dropped \<subseteq> fst ` set (copies (md lom)) \<and>
         fst ` set (copies (md lom')) \<subseteq> fst ` set (copies (md lom)) - set dropped \<and>
         persistMdOnCopies fs lom' = None"
    by auto
next
  fix l f
  assume s: "persistMdOnCopies fs l = Some f"
  then have fin: "f \<in> fst ` set (copies (md l))"
    using persistMd_Some_in [of "setxattr_fails fs" "copies (md l)" f]
    by (simp add: persistMdOnCopies_def)
  then show "map_of (copies (md l)) f \<noteq> None"
    by (simp add: map_of_eq_None_iff)
  show "map_of (copies (md (delCopyMd f l))) f = None"
    using delCopyMd_keys_subset [of f l] by (auto simp: map_of_eq_None_iff)
  show "length (copies (md (delCopyMd f l))) < length (copies (md l))"
    using fin by (rule delCopyMd_length_less)
qed



theorem syncMetaWithCopies_terminates_witness:
  "HasCopies lom_abc \<and> wp_immediate lom_abc \<and>
   syncMetaWithCopies fs_badB lom_abc = (None, lom_ac, [''/B/o''], [''/B/o'']) \<and>
   persistMdOnCopies fs_badB lom_abc = Some ''/B/o'' \<and>
   persistMdOnCopies fs_badB lom_ac = None \<and>
   length (copies (md (delCopyMd ''/B/o'' lom_abc))) < length (copies (md lom_abc)) \<and>
   \<not> HasCopies (lom_with []) \<and>
   syncMetaWithCopies fs_badB (lom_with []) = (None, lom_with [], [], []) \<and>
   HasCopies (lom_abc\<lparr>wp_immediate := False\<rparr>) \<and>
   syncMetaWithCopies fs_badB (lom_abc\<lparr>wp_immediate := False\<rparr>) =
     (None, makeDirty (lom_abc\<lparr>wp_immediate := False\<rparr>), [], [])"
proof -
  have h1: "HasCopies lom_abc \<and> wp_immediate lom_abc"
    by (simp add: sample_defs copy_eval)
  have h2: "persistMdOnCopies fs_badB lom_abc = Some ''/B/o''"
    by (simp add: sample_defs copy_eval)
  have h3: "\<not> HasCopies (lom_with [])"
    by (simp add: sample_defs copy_eval)
  have h4: "HasCopies (lom_abc\<lparr>wp_immediate := False\<rparr>) \<and>
      \<not> wp_immediate (lom_abc\<lparr>wp_immediate := False\<rparr>)"
    by (simp add: sample_defs copy_eval)
  have h5: "persistMdOnCopies fs_badB lom_ac = None"
    by (simp add: sample_defs copy_eval)
  show ?thesis
    using h1 h2 h3 h4 h5 sync_sample_badB
      syncMetaWithCopies_terminates [of lom_abc fs_badB]
      syncMetaWithCopies_terminates [of "lom_with []" fs_badB]
      syncMetaWithCopies_terminates [of "lom_abc\<lparr>wp_immediate := False\<rparr>" fs_badB]
    by blast
qed







text \<open>
  C4: \<open>ToMpath\<close> returns \<open>isHrw = true\<close> exactly when the HRW oracle answers with a
  mountpath whose path differs from that of the LOM's current mountpath; when the oracle
  fails the result is \<open>(nil, false)\<close>, and when \<open>isHrw\<close> is true the mountpath returned
  is the oracle's.
\<close>

theorem ToMpath_isHrw_iff:
  "(fst (snd (ToMpath env lom)) \<longleftrightarrow>
      (\<exists>hrwMi. HrwMpath env (uname (md lom)) = Inr hrwMi \<and>
         Path (mpathInfo lom) \<noteq> Path hrwMi)) \<and>
   (\<forall>err. HrwMpath env (uname (md lom)) = Inl err \<longrightarrow> ToMpath env lom = (None, False, lom)) \<and>
   (\<forall>hrwMi. HrwMpath env (uname (md lom)) = Inr hrwMi \<and> Path (mpathInfo lom) \<noteq> Path hrwMi \<longrightarrow>
      ToMpath env lom = (Some hrwMi, True, lom))"
proof (cases "HrwMpath env (uname (md lom))")
  case (Inl err)
  then show ?thesis by (simp add: ToMpath_def)
next
  case (Inr hrwMi)
  show ?thesis
  proof (cases "Path (mpathInfo lom) \<noteq> Path hrwMi")
    case True
    with Inr show ?thesis by (simp add: ToMpath_def)
  next
    case False
    obtain l g where "prune_copies (GetAvail env) (copies (md lom)) lom 0 = (l, g)"
      by (cases "prune_copies (GetAvail env) (copies (md lom)) lom 0") auto
    with Inr False show ?thesis by (simp add: ToMpath_def Let_def)
  qed
qed

theorem ToMpath_isHrw_iff_witness:
  "HrwMpath env_u (uname (md (lom_abc\<lparr>mpathInfo := mpB\<rparr>))) = Inr mpA \<and>
   Path (mpathInfo (lom_abc\<lparr>mpathInfo := mpB\<rparr>)) \<noteq> Path mpA \<and>
   ToMpath env_u (lom_abc\<lparr>mpathInfo := mpB\<rparr>) = (Some mpA, True, lom_abc\<lparr>mpathInfo := mpB\<rparr>) \<and>
   HrwMpath env_u (uname (md (lom_abc\<lparr>md := (md lom_abc)\<lparr>uname := ''?''\<rparr>\<rparr>))) = Inl ErrHrw \<and>
   ToMpath env_u (lom_abc\<lparr>md := (md lom_abc)\<lparr>uname := ''?''\<rparr>\<rparr>) =
     (None, False, lom_abc\<lparr>md := (md lom_abc)\<lparr>uname := ''?''\<rparr>\<rparr>) \<and>
   \<not> fst (snd (ToMpath env_u lom_abc))"
proof -
  have h1: "HrwMpath env_u (uname (md (lom_abc\<lparr>mpathInfo := mpB\<rparr>))) = Inr mpA \<and>
      Path (mpathInfo (lom_abc\<lparr>mpathInfo := mpB\<rparr>)) \<noteq> Path mpA"
    by (simp add: sample_defs2)
  have h2: "HrwMpath env_u (uname (md (lom_abc\<lparr>md := (md lom_abc)\<lparr>uname := ''?''\<rparr>\<rparr>))) = Inl ErrHrw"
    by (simp add: sample_defs2)
  have h3: "HrwMpath env_u (uname (md lom_abc)) = Inr mpA \<and> Path (mpathInfo lom_abc) = Path mpA"
    by (simp add: sample_defs2)
  show ?thesis
    using h1 h2 h3 ToMpath_isHrw_iff [of env_u "lom_abc\<lparr>mpathInfo := mpB\<rparr>"]
      ToMpath_isHrw_iff [of env_u "lom_abc\<lparr>md := (md lom_abc)\<lparr>uname := ''?''\<rparr>\<rparr>"]
      ToMpath_isHrw_iff [of env_u lom_abc]
    by simp
qed

lemma RemoveFile_fields:
  "remove_fails (snd (RemoveFile fs f)) = remove_fails fs"
  "files (snd (RemoveFile fs f)) = (if remove_fails fs f then files fs else files fs - {f})"
  "fst (RemoveFile fs f) = None \<longleftrightarrow> \<not> remove_fails fs f"
  by (simp_all add: RemoveFile_def)

lemma delExtra_loop_spec:
  "delExtra_loop mk cps fqn av (removed, err, fs) = (removed', err', fs') \<Longrightarrow>
     remove_fails fs' = remove_fails fs \<and>
     files fs' = files fs -
       {f. \<exists>p mi. (p, mi) \<in> set av \<and> f = mk mi \<and> map_of cps f = None \<and> \<not> remove_fails fs f} \<and>
     (removed' \<longleftrightarrow> removed \<or>
        (\<exists>p mi. (p, mi) \<in> set av \<and> fqn \<noteq> [] \<and> hd fqn = mk mi \<and>
           map_of cps (mk mi) = None \<and> \<not> remove_fails fs (mk mi))) \<and>
     (err' \<noteq> None \<longleftrightarrow> err \<noteq> None \<or>
        (\<exists>p mi. (p, mi) \<in> set av \<and> map_of cps (mk mi) = None \<and> remove_fails fs (mk mi)))"
proof (induction av arbitrary: removed err fs)
  case Nil
  then show ?case by auto
next
  case (Cons a av)
  obtain p mi where a: "a = (p, mi)" by (cases a) auto
  show ?case
  proof (cases "map_of cps (mk mi) \<noteq> None")
    case True
    with Cons.prems a have "delExtra_loop mk cps fqn av (removed, err, fs) = (removed', err', fs')"
      by (simp add: Let_def)
    from Cons.IH [OF this] True a show ?thesis by auto
  next
    case absent: False
    show ?thesis
    proof (cases "remove_fails fs (mk mi)")
      case True
      with Cons.prems a absent
      have "delExtra_loop mk cps fqn av (removed, Some (ErrIO (mk mi)), fs) = (removed', err', fs')"
        by (simp add: Let_def RemoveFile_def)
      from Cons.IH [OF this] True a absent show ?thesis by auto
    next
      case False
      let ?fs1 = "fs\<lparr>files := files fs - {mk mi}\<rparr>"
      let ?r1 = "(case fqn of [] \<Rightarrow> removed | f0 # x \<Rightarrow> if f0 = mk mi then True else removed)"
      from Cons.prems a absent False
      have "delExtra_loop mk cps fqn av (?r1, err, ?fs1) = (removed', err', fs')"
        by (simp add: Let_def RemoveFile_def)
      from Cons.IH [OF this]
      have ih: "remove_fails fs' = remove_fails fs"
        "files fs' = files fs - {mk mi} -
          {f. \<exists>p mi. (p, mi) \<in> set av \<and> f = mk mi \<and> map_of cps f = None \<and> \<not> remove_fails fs f}"
        "removed' \<longleftrightarrow> ?r1 \<or>
          (\<exists>p mi. (p, mi) \<in> set av \<and> fqn \<noteq> [] \<and> hd fqn = mk mi \<and>
             map_of cps (mk mi) = None \<and> \<not> remove_fails fs (mk mi))"
        "err' \<noteq> None \<longleftrightarrow> err \<noteq> None \<or>
          (\<exists>p mi. (p, mi) \<in> set av \<and> map_of cps (mk mi) = None \<and> remove_fails fs (mk mi))"
        by simp_all
      have c1: "remove_fails fs' = remove_fails fs" using ih by simp
      have c2: "files fs' = files fs -
         {f. \<exists>p mi. (p, mi) \<in> set (a # av) \<and> f = mk mi \<and> map_of cps f = None \<and> \<not> remove_fails fs f}"
        unfolding ih(2) using a absent False by auto
      have r1: "?r1 \<longleftrightarrow> removed \<or> (fqn \<noteq> [] \<and> hd fqn = mk mi)"
        by (cases fqn) auto
      have c3: "removed' \<longleftrightarrow> removed \<or>
          (\<exists>p mi. (p, mi) \<in> set (a # av) \<and> fqn \<noteq> [] \<and> hd fqn = mk mi \<and>
             map_of cps (mk mi) = None \<and> \<not> remove_fails fs (mk mi))"
        unfolding ih(3) r1 using a absent False by auto
      have c4: "err' \<noteq> None \<longleftrightarrow> err \<noteq> None \<or>
          (\<exists>p mi. (p, mi) \<in> set (a # av) \<and> map_of cps (mk mi) = None \<and> remove_fails fs (mk mi))"
        unfolding ih(4) using a absent False by auto
      show ?thesis using c1 c2 c3 c4 by blast
    qed
  qed
qed


text \<open>
  C10: a LOM that is a copy is left alone. Otherwise \<open>DelExtraCopies\<close> unlinks, for
  every available mountpath, the object FQN on that mountpath when it is absent from
  \<open>md.copies\<close>: the files left are the files before minus those FQNs whose unlink did
  not fail; \<open>removed\<close> is true exactly when the optional argument is one of the FQNs
  unlinked without error, and \<open>err\<close> is set exactly when an unlink failed. In
  particular, when \<open>md.copies\<close> is empty and the LOM sits at the object FQN of its own
  available mountpath, the LOM's own file is unlinked.
\<close>

theorem DelExtraCopies_unlinks:
  "(IsCopy lom \<longrightarrow> DelExtraCopies env fs fqn lom = (False, None, fs)) \<and>
   (\<not> IsCopy lom \<longrightarrow>
      (\<exists>removed err fs'. DelExtraCopies env fs fqn lom = (removed, err, fs') \<and>
         files fs' = files fs -
           {f. \<exists>p mi. (p, mi) \<in> set (GetAvail env) \<and>
                 f = MakePathFQN env mi (Bucket lom) ObjectType (ObjName lom) \<and>
                 map_of (copies (md lom)) f = None \<and> \<not> remove_fails fs f} \<and>
         (removed \<longleftrightarrow>
            (\<exists>p mi. (p, mi) \<in> set (GetAvail env) \<and> fqn \<noteq> [] \<and>
               hd fqn = MakePathFQN env mi (Bucket lom) ObjectType (ObjName lom) \<and>
               map_of (copies (md lom)) (MakePathFQN env mi (Bucket lom) ObjectType (ObjName lom)) = None \<and>
               \<not> remove_fails fs (MakePathFQN env mi (Bucket lom) ObjectType (ObjName lom)))) \<and>
         (err \<noteq> None \<longleftrightarrow>
            (\<exists>p mi. (p, mi) \<in> set (GetAvail env) \<and>
               map_of (copies (md lom)) (MakePathFQN env mi (Bucket lom) ObjectType (ObjName lom)) = None \<and>
               remove_fails fs (MakePathFQN env mi (Bucket lom) ObjectType (ObjName lom)))) \<and>
         (copies (md lom) = [] \<and> (\<exists>p. (p, mpathInfo lom) \<in> set (GetAvail env)) \<and>
          FQN lom = MakePathFQN env (mpathInfo lom) (Bucket lom) ObjectType (ObjName lom) \<and>
          \<not> remove_fails fs (FQN lom) \<longrightarrow> FQN lom \<notin> files fs')))"
proof (intro conjI impI)
  assume "IsCopy lom"
  then show "DelExtraCopies env fs fqn lom = (False, None, fs)"
    by (simp add: DelExtraCopies_def whingeCopy_def)
next
  assume nc: "\<not> IsCopy lom"
  let ?mk = "\<lambda>mi. MakePathFQN env mi (Bucket lom) ObjectType (ObjName lom)"
  obtain removed err fs' where
    l: "delExtra_loop ?mk (copies (md lom)) fqn (GetAvail env) (False, None, fs) = (removed, err, fs')"
    by (cases "delExtra_loop ?mk (copies (md lom)) fqn (GetAvail env) (False, None, fs)") auto
  with nc have d: "DelExtraCopies env fs fqn lom = (removed, err, fs')"
    by (simp add: DelExtraCopies_def whingeCopy_def)
  note sp = delExtra_loop_spec [OF l]
  have c1: "files fs' = files fs -
           {f. \<exists>p mi. (p, mi) \<in> set (GetAvail env) \<and> f = ?mk mi \<and>
                 map_of (copies (md lom)) f = None \<and> \<not> remove_fails fs f}"
    using sp by simp
  have c2: "removed \<longleftrightarrow>
            (\<exists>p mi. (p, mi) \<in> set (GetAvail env) \<and> fqn \<noteq> [] \<and> hd fqn = ?mk mi \<and>
               map_of (copies (md lom)) (?mk mi) = None \<and> \<not> remove_fails fs (?mk mi))"
    using sp by simp
  have c3: "err \<noteq> None \<longleftrightarrow>
            (\<exists>p mi. (p, mi) \<in> set (GetAvail env) \<and>
               map_of (copies (md lom)) (?mk mi) = None \<and> remove_fails fs (?mk mi))"
    using sp by simp
  have c4: "copies (md lom) = [] \<and> (\<exists>p. (p, mpathInfo lom) \<in> set (GetAvail env)) \<and>
          FQN lom = ?mk (mpathInfo lom) \<and> \<not> remove_fails fs (FQN lom) \<longrightarrow> FQN lom \<notin> files fs'"
  proof (intro impI, elim conjE exE)
    fix p
    assume e: "copies (md lom) = []" "(p, mpathInfo lom) \<in> set (GetAvail env)"
      "FQN lom = ?mk (mpathInfo lom)" "\<not> remove_fails fs (FQN lom)"
    then have "(p, mpathInfo lom) \<in> set (GetAvail env) \<and> FQN lom = ?mk (mpathInfo lom) \<and>
        map_of (copies (md lom)) (FQN lom) = None \<and> \<not> remove_fails fs (FQN lom)" by simp
    then have "FQN lom \<in> {f. \<exists>p mi. (p, mi) \<in> set (GetAvail env) \<and> f = ?mk mi \<and>
                 map_of (copies (md lom)) f = None \<and> \<not> remove_fails fs f}" by blast
    then show "FQN lom \<notin> files fs'" unfolding c1 by simp
  qed
  show "\<exists>removed err fs'. DelExtraCopies env fs fqn lom = (removed, err, fs') \<and>
         files fs' = files fs -
           {f. \<exists>p mi. (p, mi) \<in> set (GetAvail env) \<and> f = ?mk mi \<and>
                 map_of (copies (md lom)) f = None \<and> \<not> remove_fails fs f} \<and>
         (removed \<longleftrightarrow>
            (\<exists>p mi. (p, mi) \<in> set (GetAvail env) \<and> fqn \<noteq> [] \<and> hd fqn = ?mk mi \<and>
               map_of (copies (md lom)) (MakePathFQN env mi (Bucket lom) ObjectType (ObjName lom)) = None \<and>
               \<not> remove_fails fs (MakePathFQN env mi (Bucket lom) ObjectType (ObjName lom)))) \<and>
         (err \<noteq> None \<longleftrightarrow>
            (\<exists>p mi. (p, mi) \<in> set (GetAvail env) \<and>
               map_of (copies (md lom)) (?mk mi) = None \<and> remove_fails fs (?mk mi))) \<and>
         (copies (md lom) = [] \<and> (\<exists>p. (p, mpathInfo lom) \<in> set (GetAvail env)) \<and>
          FQN lom = ?mk (mpathInfo lom) \<and> \<not> remove_fails fs (FQN lom) \<longrightarrow> FQN lom \<notin> files fs')"
    using d c1 c2 c3 c4 by blast
qed

theorem DelExtraCopies_unlinks_witness:
  "\<not> IsCopy (lom_with []) \<and> copies (md (lom_with [])) = [] \<and>
   (''/A'', mpathInfo (lom_with [])) \<in> set (GetAvail env_u) \<and>
   FQN (lom_with []) = MakePathFQN env_u (mpathInfo (lom_with [])) (Bucket (lom_with []))
      ObjectType (ObjName (lom_with [])) \<and>
   \<not> remove_fails fs_ok (FQN (lom_with [])) \<and>
   FQN (lom_with []) \<in> files fs_ok \<and>
   DelExtraCopies env_u fs_ok [''/B/o''] (lom_with []) =
     (True, None, snd (snd (DelExtraCopies env_u fs_ok [''/B/o''] (lom_with [])))) \<and>
   FQN (lom_with []) \<notin> files (snd (snd (DelExtraCopies env_u fs_ok [''/B/o''] (lom_with [])))) \<and>
   IsCopy (lom_abc\<lparr>HrwFQN := ''/B/o''\<rparr>) \<and>
   fst (DelExtraCopies env_u fs_ok [] (lom_abc\<lparr>HrwFQN := ''/B/o''\<rparr>)) = False"
proof -
  have h: "\<not> IsCopy (lom_with []) \<and> copies (md (lom_with [])) = [] \<and>
    (''/A'', mpathInfo (lom_with [])) \<in> set (GetAvail env_u) \<and>
    FQN (lom_with []) = MakePathFQN env_u (mpathInfo (lom_with [])) (Bucket (lom_with []))
      ObjectType (ObjName (lom_with [])) \<and>
    \<not> remove_fails fs_ok (FQN (lom_with [])) \<and> FQN (lom_with []) \<in> files fs_ok"
    by (simp add: sample_defs2 IsCopy_def IsHRW_def)
  have e: "fst (DelExtraCopies env_u fs_ok [''/B/o''] (lom_with [])) = True \<and>
      fst (snd (DelExtraCopies env_u fs_ok [''/B/o''] (lom_with []))) = None"
    by (simp add: DelExtraCopies_def whingeCopy_def IsCopy_def IsHRW_def sample_defs2
        RemoveFile_def Let_def)
  have c: "IsCopy (lom_abc\<lparr>HrwFQN := ''/B/o''\<rparr>)"
    by (simp add: sample_defs2 IsCopy_def IsHRW_def)
  from DelExtraCopies_unlinks [of "lom_with []" env_u fs_ok "[''/B/o'']"] h
  obtain removed err fs' where
    d: "DelExtraCopies env_u fs_ok [''/B/o''] (lom_with []) = (removed, err, fs')"
    and n: "FQN (lom_with []) \<notin> files fs'" by blast
  from DelExtraCopies_unlinks [of "lom_abc\<lparr>HrwFQN := ''/B/o''\<rparr>" env_u fs_ok "[]"] c
  have w: "fst (DelExtraCopies env_u fs_ok [] (lom_abc\<lparr>HrwFQN := ''/B/o''\<rparr>)) = False" by simp
  from d n have n': "FQN (lom_with []) \<notin> files (snd (snd (DelExtraCopies env_u fs_ok [''/B/o''] (lom_with []))))"
    by simp
  from e have e': "DelExtraCopies env_u fs_ok [''/B/o''] (lom_with []) =
     (True, None, snd (snd (DelExtraCopies env_u fs_ok [''/B/o''] (lom_with []))))"
    by (simp add: prod_eq_iff)
  from h e' n' c w show ?thesis by blast
qed


lemma copies_ok_iff:
  "copies_ok lom \<longleftrightarrow> distinct (map fst (copies (md lom))) \<and>
     (copies (md lom) = [] \<or>
      (FQN lom \<in> fst ` set (copies (md lom)) \<and> 2 \<le> length (copies (md lom))))"
  by (auto simp: copies_ok_def wf_copies_def copies_inv_def map_of_eq_None_iff)

lemma keys_delete: "fst ` set (AList.delete k al) = fst ` set al - {k}"
  by (induction al) auto

lemma delCopyMd_ok:
  assumes ok: "copies_ok lom" and ne: "k \<noteq> FQN lom"
  shows "copies_ok (delCopyMd k lom)"
proof (cases "length (AList.delete k (copies (md lom))) \<le> 1")
  case True
  then show ?thesis by (simp add: copies_ok_iff copies_delCopyMd)
next
  case False
  then have c: "copies (md (delCopyMd k lom)) = AList.delete k (copies (md lom))"
    by (simp add: copies_delCopyMd)
  from False have "copies (md lom) \<noteq> []" by auto
  with ok have "FQN lom \<in> fst ` set (copies (md lom))" by (simp add: copies_ok_iff)
  with ne have "FQN lom \<in> fst ` set (AList.delete k (copies (md lom)))"
    by (simp add: keys_delete)
  moreover have "distinct (map fst (AList.delete k (copies (md lom))))"
    using ok by (simp add: copies_ok_iff distinct_delete)
  ultimately show ?thesis using False c by (simp add: copies_ok_iff)
qed

lemma persist_loop_ok:
  "copies_ok lom \<Longrightarrow> \<not> setxattr_fails fs (FQN lom) \<Longrightarrow>
     copies_ok (fst (persist_loop fs lom)) \<and> FQN (fst (persist_loop fs lom)) = FQN lom"
proof (induction fs lom rule: persist_loop.induct)
  case (1 fs lom)
  show ?case
  proof (cases "persistMdOnCopies fs lom")
    case None
    with "1.prems" show ?thesis by (simp add: persist_loop.simps [of fs lom])
  next
    case (Some f)
    have "setxattr_fails fs f"
      using persistMd_Some_in [of "setxattr_fails fs" "copies (md lom)" f] Some
      by (simp add: persistMdOnCopies_def)
    with "1.prems" have ne: "f \<noteq> FQN lom" by auto
    have ok: "copies_ok (delCopyMd f lom)" using "1.prems"(1) ne by (rule delCopyMd_ok)
    have nf: "\<not> setxattr_fails fs (FQN (delCopyMd f lom))" using "1.prems"(2) by simp
    obtain l d n where r: "persist_loop fs (delCopyMd f lom) = (l, d, n)"
      by (cases "persist_loop fs (delCopyMd f lom)") auto
    from "1.IH" [OF Some refl refl ok nf] r have "copies_ok l \<and> FQN l = FQN lom" by simp
    moreover from Some r have "fst (persist_loop fs lom) = l"
      by (simp add: persist_loop.simps [of fs lom] Let_def)
    ultimately show ?thesis by simp
  qed
qed

lemma makeDirty_fields [simp]:
  "copies (md (makeDirty lom)) = copies (md lom)" "FQN (makeDirty lom) = FQN lom"
  by (simp_all add: makeDirty_def)

lemma syncMetaWithCopies_ok:
  assumes ok: "copies_ok lom" and nf: "\<not> setxattr_fails fs (FQN lom)"
  shows "copies_ok (fst (snd (syncMetaWithCopies fs lom))) \<and>
     FQN (fst (snd (syncMetaWithCopies fs lom))) = FQN lom"
proof (cases "HasCopies lom")
  case False
  with ok show ?thesis by (simp add: syncMetaWithCopies_def)
next
  case True
  show ?thesis
  proof (cases "wp_immediate lom")
    case False
    with True ok show ?thesis by (simp add: syncMetaWithCopies_def copies_ok_iff)
  next
    case imm: True
    obtain l d n where r: "persist_loop fs lom = (l, d, n)"
      by (cases "persist_loop fs lom") auto
    with persist_loop_ok [OF ok nf] have "copies_ok l \<and> FQN l = FQN lom" by simp
    with True imm r show ?thesis by (simp add: syncMetaWithCopies_def)
  qed
qed

lemma length_ge2:
  "a \<in> fst ` set al \<Longrightarrow> b \<in> fst ` set al \<Longrightarrow> a \<noteq> b \<Longrightarrow> 2 \<le> length al"
proof -
  assume a: "a \<in> fst ` set al" "b \<in> fst ` set al" "a \<noteq> b"
  then have "{a, b} \<subseteq> set (map fst al)" by auto
  then have "card {a, b} \<le> card (set (map fst al))" by (intro card_mono) auto
  also have "\<dots> \<le> length (map fst al)" by (rule card_length)
  finally show ?thesis using a by simp
qed

lemma update2_ok:
  assumes w: "wf_copies lom" and ne: "k \<noteq> FQN lom"
  shows "copies_ok (set_copies (AList.update (FQN lom) v (AList.update k w (copies (md lom)))) lom)"
proof -
  let ?c = "AList.update (FQN lom) v (AList.update k w (copies (md lom)))"
  have d: "distinct (map fst ?c)" using w by (simp add: wf_copies_def distinct_update)
  have k1: "FQN lom \<in> fst ` set ?c" by (simp add: dom_update)
  have k2: "k \<in> fst ` set ?c" by (simp add: dom_update)
  have "2 \<le> length ?c" using k1 k2 ne by (rule length_ge2 [of "FQN lom" _ k, OF _ _ not_sym])
  with d k1 show ?thesis by (simp add: copies_ok_iff)
qed


lemma AddCopy_ok:
  assumes w: "wf_copies lom" and ne: "copyFQN \<noteq> FQN lom"
    and nf: "\<not> setxattr_fails fs (FQN lom)"
  shows "copies_ok (fst (snd (AddCopy fs copyFQN mpi lom)))"
    and "FQN (fst (snd (AddCopy fs copyFQN mpi lom))) = FQN lom"
proof -
  let ?l = "set_copies (AList.update (FQN lom) (mpathInfo lom)
      (AList.update copyFQN mpi (copies (md lom)))) lom"
  have ok: "copies_ok ?l" using w ne by (rule update2_ok)
  have nf': "\<not> setxattr_fails fs (FQN ?l)" using nf by simp
  have e: "AddCopy fs copyFQN mpi lom = syncMetaWithCopies fs ?l"
    by (simp add: AddCopy_def Let_def)
  from syncMetaWithCopies_ok [OF ok nf']
  show "copies_ok (fst (snd (AddCopy fs copyFQN mpi lom)))"
    and "FQN (fst (snd (AddCopy fs copyFQN mpi lom))) = FQN lom"
    unfolding e by simp_all
qed

lemma delCopies_md_ok_inv:
  "copies_ok lom \<Longrightarrow> FQN lom \<notin> set F \<Longrightarrow>
     copies_ok (snd (delCopies_md n F lom)) \<and> FQN (snd (delCopies_md n F lom)) = FQN lom"
proof (induction F arbitrary: lom)
  case Nil
  then show ?case by simp
next
  case (Cons x xs)
  show ?case
  proof (cases "map_of (copies (md lom)) x = None")
    case True
    with Cons.prems show ?thesis by simp
  next
    case False
    then have e: "delCopies_md n (x # xs) lom = delCopies_md n xs (delCopyMd x lom)" by auto
    have "copies_ok (delCopyMd x lom)" using Cons.prems by (intro delCopyMd_ok) auto
    moreover have "FQN (delCopyMd x lom) \<notin> set xs" using Cons.prems by simp
    ultimately show ?thesis using Cons.IH [of "delCopyMd x lom"] unfolding e by simp
  qed
qed

lemma DelCopies_ok:
  assumes ok: "copies_ok lom" and ni: "FQN lom \<notin> set F"
    and nf: "\<not> setxattr_fails fs (FQN lom)"
  shows "copies_ok (fst (snd (DelCopies fs F lom)))"
proof -
  obtain r l1 where d: "delCopies_md (NumCopies lom) F lom = (r, l1)"
    by (cases "delCopies_md (NumCopies lom) F lom") auto
  with delCopies_md_ok_inv [OF ok ni, of "NumCopies lom"]
  have l1: "copies_ok l1" "FQN l1 = FQN lom" by simp_all
  show ?thesis
  proof (cases r)
    case (Some e)
    with d l1 show ?thesis by (simp add: DelCopies_def)
  next
    case None
    obtain e2 l2 dr n2 where s: "syncMetaWithCopies fs l1 = (e2, l2, dr, n2)"
      by (cases "syncMetaWithCopies fs l1") auto
    have "\<not> setxattr_fails fs (FQN l1)" using nf l1 by simp
    from syncMetaWithCopies_ok [OF l1(1) this] s have "copies_ok l2" by simp
    with d None s show ?thesis by (cases e2) (simp_all add: DelCopies_def)
  qed
qed

lemma DelAllCopies_ok:
  "copies_ok lom \<Longrightarrow> \<not> setxattr_fails fs (FQN lom) \<Longrightarrow>
     copies_ok (fst (snd (DelAllCopies fs lom)))"
  unfolding DelAllCopies_def by (rule DelCopies_ok) auto

lemma file_ops_keep_oracles:
  "setxattr_fails (snd (CopyFile fs a b)) = setxattr_fails fs"
  "setxattr_fails (snd (Rename fs a b)) = setxattr_fails fs"
  "setxattr_fails (snd (RemoveFile fs a)) = setxattr_fails fs"
  by (simp_all add: CopyFile_def Rename_def RemoveFile_def)

lemma Copy_add_ok:
  assumes w: "wf_copies lom" and ne: "copyFQN \<noteq> FQN lom"
    and nf: "\<not> setxattr_fails fs (FQN lom)"
  shows "copies_ok (fst (snd (Copy_add fs copyFQN mi lom)))"
proof -
  obtain e0 lom1 dr ns where a: "AddCopy fs copyFQN mi lom = (e0, lom1, dr, ns)"
    by (cases "AddCopy fs copyFQN mi lom") auto
  with AddCopy_ok [OF w ne nf, of mi] have l1: "copies_ok lom1" "FQN lom1 = FQN lom" by simp_all
  show ?thesis
  proof (cases "Persist fs lom1")
    case (Some err)
    have "copies_ok (delCopyMd copyFQN lom1)" using l1 ne by (intro delCopyMd_ok) auto
    with a Some show ?thesis by (simp add: Copy_add_def)
  next
    case None
    obtain e l2 d2 n2 where s: "syncMetaWithCopies fs lom1 = (e, l2, d2, n2)"
      by (cases "syncMetaWithCopies fs lom1") auto
    have "\<not> setxattr_fails fs (FQN lom1)" using nf l1 by simp
    from syncMetaWithCopies_ok [OF l1(1) this] s have "copies_ok l2" by simp
    with a None s show ?thesis by (simp add: Copy_add_def)
  qed
qed

lemma Copy_ok:
  assumes ok: "copies_ok lom"
    and ne: "MakePathFQN env mi (Bucket lom) ObjectType (ObjName lom) \<noteq> FQN lom"
    and nf: "\<not> setxattr_fails fs (FQN lom)"
  shows "copies_ok (fst (snd (Copy env fs mi lom)))"
proof -
  let ?c = "MakePathFQN env mi (Bucket lom) ObjectType (ObjName lom)"
  let ?w = "MakePathFQN env mi (Bucket lom) WorkfileType (WorkfileCopy env @ ''.'' @ ObjName lom)"
  have w: "wf_copies lom" using ok by (simp add: copies_ok_def)
  have add: "copies_ok (fst (snd (Copy_add fs' ?c mi lom)))"
    if "setxattr_fails fs' = setxattr_fails fs" for fs'
    using w ne nf that by (intro Copy_add_ok) auto
  show ?thesis
  proof (cases "?c \<in> files fs \<and> loads_equal fs ?c")
    case True
    then have "Copy env fs mi lom = Copy_add fs ?c mi lom" by (simp add: Copy_def Let_def)
    then show ?thesis using add [of fs] by simp
  next
    case False
    then have e: "Copy env fs mi lom =
      (case CopyFile fs (FQN lom) ?w of
             (Some err, fs1) \<Rightarrow> (Some err, lom, fs1)
           | (None, fs1) \<Rightarrow>
               (case Rename fs1 ?w ?c of
                  (Some err, fs2) \<Rightarrow> (Some err, lom, snd (RemoveFile fs2 ?w))
                | (None, fs2) \<Rightarrow> Copy_add fs2 ?c mi lom))"
      unfolding Copy_def Let_def by (simp only: if_False)
    obtain e1 fs1 where c: "CopyFile fs (FQN lom) ?w = (e1, fs1)"
      by (cases "CopyFile fs (FQN lom) ?w") auto
    then have f1: "setxattr_fails fs1 = setxattr_fails fs"
      using file_ops_keep_oracles(1) [of fs "FQN lom" ?w] by simp
    show ?thesis
    proof (cases e1)
      case (Some err)
      with c ok show ?thesis unfolding e by simp
    next
      case None
      obtain e2 fs2 where r: "Rename fs1 ?w ?c = (e2, fs2)"
        by (cases "Rename fs1 ?w ?c") auto
      then have f2: "setxattr_fails fs2 = setxattr_fails fs"
        using file_ops_keep_oracles(2) [of fs1 ?w ?c] f1 by simp
      show ?thesis
      proof (cases e2)
        case (Some err)
        with c None r ok show ?thesis unfolding e by simp
      next
        case n2: None
        with c None r add [OF f2] show ?thesis unfolding e by simp
      qed
    qed
  qed
qed


lemma length_update_ge: "length al \<le> length (AList.update k v al)"
  by (induction al) auto

lemma update1_ok:
  assumes ok: "copies_ok lom" and ne: "copies (md lom) \<noteq> []"
  shows "copies_ok (set_copies (AList.update k v (copies (md lom))) lom)"
proof -
  let ?c = "AList.update k v (copies (md lom))"
  from ok ne have a: "distinct (map fst (copies (md lom)))"
    "FQN lom \<in> fst ` set (copies (md lom))" "2 \<le> length (copies (md lom))"
    by (simp_all add: copies_ok_iff)
  have "distinct (map fst ?c)" using a by (simp add: distinct_update)
  moreover have "FQN lom \<in> fst ` set ?c" using a by (simp add: dom_update)
  moreover have "2 \<le> length ?c" using a length_update_ge [of "copies (md lom)" k v] by simp
  ultimately show ?thesis by (simp add: copies_ok_iff)
qed

lemma Copy2FQN_mirror_ok:
  assumes ok: "copies_ok lom" and ne: "dstFQN \<noteq> FQN lom"
    and nf: "\<not> setxattr_fails fs (FQN lom)"
  shows "copies_ok (fst (snd (snd (Copy2FQN_mirror env fs dstFQN dst_nil dst lom))))"
proof (cases "copies (md lom) \<noteq> [] \<and> dst_nil")
  case True
  then have "Copy2FQN_mirror env fs dstFQN dst_nil dst lom =
     (Some dst, Panicked, set_copies (AList.update dstFQN (mpathInfo dst) (copies (md lom))) lom, fs)"
    by (simp add: Copy2FQN_mirror_def)
  then show ?thesis using update1_ok [OF ok, of dstFQN "mpathInfo dst"] True by simp
next
  case False
  let ?lom1 = "set_copies (AList.update (FQN lom) (mpathInfo lom)
                      (AList.update dstFQN (mpathInfo dst) (copies (md lom)))) lom"
  have w: "wf_copies lom" using ok by (simp add: copies_ok_def)
  have ok1: "copies_ok ?lom1" using w ne by (rule update2_ok)
  have nf1: "\<not> setxattr_fails fs (FQN ?lom1)" using nf by simp
  obtain e l2 d2 n2 where s: "syncMetaWithCopies fs ?lom1 = (e, l2, d2, n2)"
    by (cases "syncMetaWithCopies fs ?lom1") auto
  from syncMetaWithCopies_ok [OF ok1 nf1] s have "copies_ok l2" by simp
  moreover from False s have "fst (snd (snd (Copy2FQN_mirror env fs dstFQN dst_nil dst lom))) = l2"
    unfolding Copy2FQN_mirror_def Let_def by (cases e) (simp_all only: if_False, simp_all)
  ultimately show ?thesis by simp
qed

lemma Copy2FQN_finish_ok:
  assumes ok: "copies_ok lom" and ne: "dstFQN \<noteq> FQN lom"
    and nf: "\<not> setxattr_fails fs (FQN lom)"
  shows "copies_ok (fst (snd (snd (Copy2FQN_finish env fs dstFQN n d lom))))"
  using ok Copy2FQN_mirror_ok [OF ok ne nf]
  by (simp add: Copy2FQN_finish_def Let_def split: option.splits)

lemma Copy2FQN_copy_ok:
  assumes ok: "copies_ok lom" and ne: "dstFQN \<noteq> FQN lom"
    and nf: "\<not> setxattr_fails fs (FQN lom)"
  shows "copies_ok (fst (snd (snd (Copy2FQN_copy env fs dstFQN n d lom))))"
proof -
  let ?work = "GenWorkFQN env d"
  obtain e1 fs1 where c: "CopyFile fs (FQN lom) ?work = (e1, fs1)"
    by (cases "CopyFile fs (FQN lom) ?work") auto
  obtain e2 fs2 where r: "Rename fs1 ?work dstFQN = (e2, fs2)"
    by (cases "Rename fs1 ?work dstFQN") auto
  have "setxattr_fails fs2 = setxattr_fails fs"
    using file_ops_keep_oracles(1) [of fs "FQN lom" ?work]
      file_ops_keep_oracles(2) [of fs1 ?work dstFQN] c r by simp
  then have nf2: "\<not> setxattr_fails fs2 (FQN lom)" using nf by simp
  show ?thesis
    using ok c r Copy2FQN_finish_ok [OF ok ne nf2]
    by (cases e1; cases e2) (simp_all add: Copy2FQN_copy_def Let_def)
qed

lemma Copy2FQN_ok:
  assumes ok: "copies_ok lom" and ne: "dstFQN \<noteq> FQN lom"
    and nf: "\<not> setxattr_fails fs (FQN lom)"
  shows "copies_ok (fst (snd (snd (Copy2FQN env fs dstFQN lom))))"
  using ok Copy2FQN_copy_ok [OF ok ne nf]
  by (simp add: Copy2FQN_def Let_def split: prod.splits option.splits)

lemma prune_copies_ok:
  "copies_ok lom \<Longrightarrow>
   (\<forall>mi. (FQN lom, mi) \<in> set es \<longrightarrow>
      (\<exists>mp. map_of availablePaths (Path mi) = Some mp \<and> \<not> WaitingDD mp)) \<Longrightarrow>
   copies_ok (fst (prune_copies availablePaths es lom got))"
proof (induction es arbitrary: lom got)
  case Nil
  then show ?case by simp
next
  case (Cons a es)
  obtain fqn mpi where a: "a = (fqn, mpi)" by (cases a) auto
  have rest: "\<forall>mi. (FQN lom, mi) \<in> set es \<longrightarrow>
      (\<exists>mp. map_of availablePaths (Path mi) = Some mp \<and> \<not> WaitingDD mp)"
    using Cons.prems(2) by simp
  show ?case
  proof (cases "\<exists>mp. map_of availablePaths (Path mpi) = Some mp \<and> \<not> WaitingDD mp")
    case True
    then have "prune_copies availablePaths (a # es) lom got =
        prune_copies availablePaths es lom (got + 1)"
      using a by auto
    then show ?thesis using Cons.IH [OF Cons.prems(1) rest] by simp
  next
    case False
    then have e: "prune_copies availablePaths (a # es) lom got =
        prune_copies availablePaths es (delCopyMd fqn lom) got"
      using a by (auto split: option.splits)
    from False Cons.prems(2) a have ne: "fqn \<noteq> FQN lom" by auto
    have ok': "copies_ok (delCopyMd fqn lom)" using Cons.prems(1) ne by (rule delCopyMd_ok)
    have rest': "\<forall>mi. (FQN (delCopyMd fqn lom), mi) \<in> set es \<longrightarrow>
      (\<exists>mp. map_of availablePaths (Path mi) = Some mp \<and> \<not> WaitingDD mp)"
      using rest by simp
    show ?thesis unfolding e using Cons.IH [OF ok' rest'] .
  qed
qed

lemma ToMpath_ok:
  assumes ok: "copies_ok lom"
    and own: "\<forall>mi. (FQN lom, mi) \<in> set (copies (md lom)) \<longrightarrow>
      (\<exists>mp. map_of (GetAvail env) (Path mi) = Some mp \<and> \<not> WaitingDD mp)"
  shows "copies_ok (snd (snd (ToMpath env lom)))"
proof -
  obtain l g where p: "prune_copies (GetAvail env) (copies (md lom)) lom 0 = (l, g)"
    by (cases "prune_copies (GetAvail env) (copies (md lom)) lom 0") auto
  with prune_copies_ok [OF ok own, of 0] have "copies_ok l" by simp
  with ok p show ?thesis
    by (simp add: ToMpath_def Let_def split: sum.splits)
qed


text \<open>
  C6, as the claim states it, fails. \<open>AddCopy\<close> called with the LOM's own FQN on a LOM
  without copies leaves a map with the one entry of the LOM itself (its
  \<open>syncMetaWithCopies\<close> returns at once, and nothing normalizes the map). \<open>DelCopies\<close>
  called with the LOM's own FQN on a LOM with three copies succeeds and leaves the two
  other copies, a map of two entries without the LOM's own FQN.
\<close>

theorem copies_invariant_counterexample:
  "copies (md (lom_with [])) = [] \<and>
   copies (md (fst (snd (AddCopy fs_ok (FQN (lom_with [])) mpA (lom_with []))))) =
     [(''/A/o'', mpA)] \<and>
   length (copies (md (fst (snd (AddCopy fs_ok (FQN (lom_with [])) mpA (lom_with [])))))) = 1 \<and>
   map_of (copies (md lom_abc)) (FQN lom_abc) = Some mpA \<and>
   length (copies (md lom_abc)) = 3 \<and>
   fst (DelCopies fs_ok [FQN lom_abc] lom_abc) = None \<and>
   copies (md (fst (snd (DelCopies fs_ok [FQN lom_abc] lom_abc)))) =
     [(''/B/o'', mpB), (''/C/o'', mpC)] \<and>
   map_of (copies (md (fst (snd (DelCopies fs_ok [FQN lom_abc] lom_abc))))) (FQN lom_abc) = None"
  by (simp add: AddCopy_def DelCopies_def sample_defs copy_eval)

text \<open>
  C6, amended: for a LOM whose \<open>md.copies\<close> is empty or holds its own FQN and at least
  two entries, and on whose own FQN the metadata write of \<open>syncMetaWithCopies\<close> does
  not fail, the same holds again after \<open>AddCopy\<close> of an FQN other than its own, after
  \<open>DelCopies\<close> of FQNs other than its own (whether the call succeeds or fails), after
  \<open>DelAllCopies\<close>, after \<open>Copy\<close> to a mountpath whose object FQN is not its own, after
  \<open>Copy2FQN\<close> to an FQN other than its own, and after the pruning inside \<open>ToMpath\<close>
  when the mountpath recorded for its own FQN is available and not \<open>WaitingDD\<close>.
\<close>

theorem copies_invariant_preserved:
  assumes "copies_ok lom" and "\<not> setxattr_fails fs (FQN lom)"
  shows "(copyFQN \<noteq> FQN lom \<longrightarrow> copies_ok (fst (snd (AddCopy fs copyFQN mpi lom)))) \<and>
   (FQN lom \<notin> set F \<longrightarrow> copies_ok (fst (snd (DelCopies fs F lom)))) \<and>
   copies_ok (fst (snd (DelAllCopies fs lom))) \<and>
   (MakePathFQN env mi (Bucket lom) ObjectType (ObjName lom) \<noteq> FQN lom \<longrightarrow>
      copies_ok (fst (snd (Copy env fs mi lom)))) \<and>
   (dstFQN \<noteq> FQN lom \<longrightarrow> copies_ok (fst (snd (snd (Copy2FQN env fs dstFQN lom))))) \<and>
   ((\<forall>m. (FQN lom, m) \<in> set (copies (md lom)) \<longrightarrow>
        (\<exists>mp. map_of (GetAvail env) (Path m) = Some mp \<and> \<not> WaitingDD mp)) \<longrightarrow>
      copies_ok (snd (snd (ToMpath env lom))))"
proof -
  have w: "wf_copies lom" using assms(1) by (simp add: copies_ok_def)
  show ?thesis
    using AddCopy_ok(1) [OF w _ assms(2)] DelCopies_ok [OF assms(1) _ assms(2)]
      DelAllCopies_ok [OF assms] Copy_ok [OF assms(1) _ assms(2)]
      Copy2FQN_ok [OF assms(1) _ assms(2)] ToMpath_ok [OF assms(1)]
    by blast
qed

theorem copies_invariant_preserved_witness:
  "copies_ok lom_abc \<and> \<not> setxattr_fails fs_badB (FQN lom_abc) \<and>
   copies_ok (fst (snd (AddCopy fs_badB ''/D/o'' mpB lom_abc))) \<and>
   copies_ok (fst (snd (DelCopies fs_badB [''/B/o'', ''/C/o''] lom_abc))) \<and>
   copies (md (fst (snd (DelCopies fs_badB [''/B/o'', ''/C/o''] lom_abc)))) = [] \<and>
   copies_ok (fst (snd (DelAllCopies fs_badB lom_abc))) \<and>
   copies_ok (fst (snd (Copy env_u fs_badB mpC lom_abc))) \<and>
   copies_ok (fst (snd (snd (Copy2FQN env_u fs_badB ''/B/x'' lom_abc)))) \<and>
   copies_ok (snd (snd (ToMpath env_u lom_abc)))"
proof -
  have h1: "copies_ok lom_abc" by (simp add: copies_ok_iff sample_defs2)
  have h2: "\<not> setxattr_fails fs_badB (FQN lom_abc)" by (simp add: sample_defs2)
  have h3: "''/D/o'' \<noteq> FQN lom_abc" "FQN lom_abc \<notin> set [''/B/o'', ''/C/o'']"
    "MakePathFQN env_u mpC (Bucket lom_abc) ObjectType (ObjName lom_abc) \<noteq> FQN lom_abc"
    "''/B/x'' \<noteq> FQN lom_abc"
    by (simp_all add: sample_defs2)
  have h4: "\<forall>m. (FQN lom_abc, m) \<in> set (copies (md lom_abc)) \<longrightarrow>
        (\<exists>mp. map_of (GetAvail env_u) (Path m) = Some mp \<and> \<not> WaitingDD mp)"
    by (simp add: sample_defs2)
  have e: "copies (md (fst (snd (DelCopies fs_badB [''/B/o'', ''/C/o''] lom_abc)))) = []"
    by (simp add: DelCopies_def sample_defs copy_eval)
  show ?thesis
    using h1 h2 h3 h4 e
      copies_invariant_preserved [OF h1 h2, of "''/D/o''" mpB "[''/B/o'', ''/C/o'']" env_u mpC "''/B/x''"]
    by blast
qed



section \<open>Properties of the receiver\<close>

lemma next_frame_prefix:
  assumes hb: "16 \<le> length (headerBuf it)" and d: "16 \<le> length (data (body it))"
  defines "buf \<equiv> take 16 (data (body it)) @ drop 16 (headerBuf it)"
  defines "it1 \<equiv> it\<lparr>body := (body it)\<lparr>data := drop 16 (data (body it))\<rparr>, headerBuf := buf\<rparr>"
  defines "hl \<equiv> be_u64 (data (body it))"
  defines "cks \<equiv> be_u64 (drop 8 (data (body it)))"
  shows "next_frame hash debug isLast it =
     (if sint hl > int (length (headerBuf it))
      then (Ret (None, 0, hl, Some (ErrBreakage1 (sint hl))), it1)
      else if cks \<noteq> hash hl
      then (Ret (None, 0, hl, Some (ErrBreakage2 (sint hl) cks (hash hl))), it1)
      else if debug \<and> \<not> sint hl < int (length (headerBuf it)) then (GoPanic, it1)
      else next_header debug isLast (hl + 16) (sint hl) it1)"
proof -
  have r: "body_Read (body it) (nat (sizeofI64 * 2)) =
      (take 16 (data (body it)), None, (body it)\<lparr>data := drop 16 (data (body it))\<rparr>)"
    using d by (simp add: body_Read_def sizeofI64_def)
  have l: "length (take 16 (data (body it))) = 16" using d by simp
  have b1: "be_u64 buf = hl" using d by (simp add: be_u64_def buf_def hl_def)
  have "take 8 (drop 8 buf) = take 8 (drop 8 (data (body it)))"
    using d by (simp add: buf_def drop_take)
  then have b2: "be_u64 (drop (nat sizeofI64) buf) = cks"
    by (simp add: be_u64_def cks_def sizeofI64_def)
  have lb: "length buf = length (headerBuf it)" using hb d by (simp add: buf_def)
  show ?thesis
    using hb r l b1 b2 lb
    by (simp add: next_frame_def Let_def buf_def [symmetric] it1_def [symmetric] sizeofI64_def)
qed

text \<open>
  C2: what \<open>next\<close> does with the 16-byte prefix, the header length being read as the
  code reads it, as a signed \<open>int64\<close>. A length above the buffer size fails with stream
  breakage #1; a length within it whose checksum differs from the hash fails with stream
  breakage #2; in both cases no object reader is returned. But a length whose top bit is
  set is negative to the code, passes the first check, and with a matching checksum
  \<open>next\<close> does not fail with stream breakage #1: it panics on \<open>it.headerBuf[:hlen]\<close>.
\<close>

theorem next_frame_length_check:
  assumes "16 \<le> length (headerBuf it)" and "16 \<le> length (data (body it))"
  shows "(int (length (headerBuf it)) < sint (be_u64 (data (body it))) \<longrightarrow>
      fst (next_frame hash debug isLast it) =
        Ret (None, 0, be_u64 (data (body it)),
             Some (ErrBreakage1 (sint (be_u64 (data (body it))))))) \<and>
    (sint (be_u64 (data (body it))) \<le> int (length (headerBuf it)) \<and>
     be_u64 (drop 8 (data (body it))) \<noteq> hash (be_u64 (data (body it))) \<longrightarrow>
      fst (next_frame hash debug isLast it) =
        Ret (None, 0, be_u64 (data (body it)),
             Some (ErrBreakage2 (sint (be_u64 (data (body it))))
                     (be_u64 (drop 8 (data (body it)))) (hash (be_u64 (data (body it))))))) \<and>
    (sint (be_u64 (data (body it))) < 0 \<and>
     be_u64 (drop 8 (data (body it))) = hash (be_u64 (data (body it))) \<longrightarrow>
      fst (next_frame hash debug isLast it) = GoPanic)"
  using assms
  by (simp add: next_frame_prefix next_header_def)

lemma huge_prefix_eval:
  "be_u64 huge_prefix = 9223372036854775808 \<and> be_u64 (drop 8 huge_prefix) = 9223372036854775808 \<and>
   length huge_prefix = 16"
  by (simp add: huge_prefix_def be_u64_def)

lemma huge_sint: "sint (9223372036854775808 :: 64 word) < 0"
  by simp

lemma huge_unat: "unat (9223372036854775808 :: 64 word) = 9223372036854775808"
  by simp

theorem next_frame_length_check_witness:
  "16 \<le> length (headerBuf huge_it) \<and> 16 \<le> length (data (body huge_it)) \<and>
   unat (be_u64 (data (body huge_it))) = 9223372036854775808 \<and>
   sint (be_u64 (data (body huge_it))) < 0 \<and>
   be_u64 (drop 8 (data (body huge_it))) = be_u64 (data (body huge_it)) \<and>
   fst (next_frame (\<lambda>x. x) False sample_isLast huge_it) = GoPanic"
proof -
  have d: "data (body huge_it) = huge_prefix" by (simp add: huge_it_def)
  have h1: "16 \<le> length (headerBuf huge_it)" by (simp add: huge_it_def)
  have h2: "16 \<le> length (data (body huge_it))" unfolding d using huge_prefix_eval by simp
  have v: "be_u64 (data (body huge_it)) = 9223372036854775808"
    "be_u64 (drop 8 (data (body huge_it))) = 9223372036854775808"
    unfolding d using huge_prefix_eval by simp_all
  have p: "sint (be_u64 (data (body huge_it))) < 0 \<and>
     be_u64 (drop 8 (data (body huge_it))) = (\<lambda>x. x) (be_u64 (data (body huge_it)))"
    unfolding v using huge_sint by simp
  from next_frame_length_check [OF h1 h2, of "\<lambda>x. x" False sample_isLast] p
  have g: "fst (next_frame (\<lambda>x. x) False sample_isLast huge_it) = GoPanic" by blast
  have u: "unat (be_u64 (data (body huge_it))) = 9223372036854775808"
    unfolding v by (rule huge_unat)
  from h1 h2 u p g show ?thesis by simp
qed

lemma session_stats_Nil [simp]: "session_stats s0 sessid [] = s0"
  by (simp add: session_stats_def delivered_def offset_sum_def session_frames_def)






lemma handler_steps_old [simp]:
  "oldSessions (start_of_stream sid h) = oldSessions h"
  "oldSessions (add_offset sid hl64 h) = oldSessions h"
  "oldSessions (count_object sid d h) = oldSessions h"
  by (simp_all add: start_of_stream_def add_offset_def count_object_def)

lemma expired_steps [simp]:
  "expired now (start_of_stream sid h) = expired now h"
  "expired now (add_offset sid hl64 h) = expired now h"
  "expired now (count_object sid d h) = expired now h"
  by (simp_all add: expired_def fun_eq_iff)







lemma expired_after_frame [simp]: "expired now (after_frame f h) = expired now h"
  by (cases f) (simp add: after_frame_def Let_def split: option.splits)

lemma recv_loop_unfold:
  assumes nf: "next_frame hash debug isLast it = (r, it')"
  shows "recv_loop hash debug isLast cb now h it =
    (case r of
       GoPanic \<Rightarrow> (Crashed, h, [])
     | Ret f \<Rightarrow>
        (case f of (obj, sessid, hl64, err) \<Rightarrow>
          (case obj of
             Some hdr \<Rightarrow>
               if sessid = 0 then (Crashed, add_offset sessid hl64 (start_of_stream sessid h), [f])
               else (case recv_loop hash debug isLast cb now (after_frame f h) (drain cb hdr it') of
                       (out, h', tr) \<Rightarrow> (out, h', f # tr))
           | None \<Rightarrow>
              (case err of
                 Some e \<Rightarrow>
                   ((if e \<noteq> EOF then BadRequest e else Finished),
                    (if sessid \<noteq> 0 then cleanup now sessid (after_frame f h) else after_frame f h),
                    [f])
               | None \<Rightarrow>
                   (case recv_loop hash debug isLast cb now (after_frame f h) it' of
                      (out, h', tr) \<Rightarrow> (out, h', f # tr))))))"
  using nf
  by (subst recv_loop.simps)
     (simp add: after_frame_def Let_def split: go.splits prod.splits option.splits)





lemma ends_session_Cons:
  "obj \<noteq> None \<or> err = None \<Longrightarrow>
     ends_session ((obj, s, hl64, err) # t1) sid = ends_session t1 sid"
  by (cases t1) (auto simp: ends_session_def)

lemma oldSessions_after_frame [simp]: "oldSessions (after_frame f h) = oldSessions h"
  by (cases f) (simp add: after_frame_def Let_def split: option.splits)

lemma cleanup_rel_step:
  "obj \<noteq> None \<or> err = None \<Longrightarrow> cleanup_rel now (after_frame (obj, s, hl64, err) h) h1 t1 \<Longrightarrow>
     cleanup_rel now h h1 ((obj, s, hl64, err) # t1)"
  by (simp add: cleanup_rel_def ends_session_Cons cong: if_cong)

lemma cleanup_after_frame:
  "oldSessions (cleanup now sid (after_frame f h)) =
     (\<lambda>s. if expired now h s then None else oldSessions h s)(sid \<mapsto> now)"
  "expired now h s \<Longrightarrow> sessions (cleanup now sid (after_frame f h)) s = None"
  by (simp_all add: cleanup_def cong: if_cong)

lemma cleanup_rel_not_ended:
  "oldSessions h' = oldSessions h \<Longrightarrow> \<forall>sid. \<not> ends_session tr sid \<Longrightarrow> cleanup_rel now h h' tr"
  by (simp add: cleanup_rel_def)

lemma recv_loop_cleanup_rel:
  "recv_loop hash debug isLast cb now h it = (out, h', tr) \<Longrightarrow> cleanup_rel now h h' tr"
proof (induction "length (data (body it))" arbitrary: h it out h' tr rule: less_induct)
  case less
  obtain r it' where nf: "next_frame hash debug isLast it = (r, it')"
    by (cases "next_frame hash debug isLast it") auto
  note u = recv_loop_unfold [OF nf, of cb now h]
  show ?case
  proof (cases r)
    case GoPanic
    with less.prems(1) u have "h' = h" "tr = []" by simp_all
    then show ?thesis by (simp add: cleanup_rel_def ends_session_def)
  next
    case (Ret f)
    obtain obj sid hl64 err where f: "f = (obj, sid, hl64, err)" by (cases f) auto
    show ?thesis
    proof (cases obj)
      case None
      show ?thesis
      proof (cases err)
        case (Some e)
        with less.prems(1) u Ret f None
        have e: "h' = (if sid \<noteq> 0 then cleanup now sid (after_frame f h) else after_frame f h)"
          "tr = [f]" by auto
        show ?thesis
        proof (cases "sid = 0")
          case True
          with e f None Some show ?thesis
            by (intro cleanup_rel_not_ended) (auto simp: ends_session_def)
        next
          case False
          with f None Some have "ends_session [f] s = (s = sid)" for s
            by (auto simp: ends_session_def)
          with e False show ?thesis
            by (simp add: cleanup_rel_def cleanup_after_frame)
        qed
      next
        case n: None
        obtain o1 h1 t1 where rec:
          "recv_loop hash debug isLast cb now (after_frame f h) it' = (o1, h1, t1)"
          by (cases "recv_loop hash debug isLast cb now (after_frame f h) it'") auto
        with less.prems(1) u Ret f None n have e: "h' = h1" "tr = f # t1" by simp_all
        have lt: "length (data (body it')) < length (data (body it))"
          using nf Ret f None n
          by (intro next_frame_consumes [of hash debug isLast it obj sid hl64 err]) auto
        have "cleanup_rel now (after_frame f h) h1 t1" using less.hyps [OF lt rec] .
        then show ?thesis unfolding e f using n f by (intro cleanup_rel_step) auto
      qed
    next
      case (Some hdr)
      show ?thesis
      proof (cases "sid = 0")
        case True
        with less.prems(1) u Ret f Some
        have e: "h' = add_offset sid hl64 (start_of_stream sid h)" "tr = [f]" by simp_all
        with f Some show ?thesis
          by (intro cleanup_rel_not_ended) (auto simp: ends_session_def)
      next
        case False
        obtain o1 h1 t1 where rec:
          "recv_loop hash debug isLast cb now (after_frame f h) (drain cb hdr it') = (o1, h1, t1)"
          by (cases "recv_loop hash debug isLast cb now (after_frame f h) (drain cb hdr it')") auto
        with less.prems(1) u Ret f Some False have e: "h' = h1" "tr = f # t1" by simp_all
        have "length (data (body it')) < length (data (body it))"
          using nf Ret f Some
          by (intro next_frame_consumes [of hash debug isLast it obj sid hl64 err]) auto
        then have lt: "length (data (body (drain cb hdr it'))) < length (data (body it))"
          by (simp add: drain_def)
        have "cleanup_rel now (after_frame f h) h1 t1" using less.hyps [OF lt rec] .
        then show ?thesis unfolding e f using Some f by (intro cleanup_rel_step) auto
      qed
    qed
  qed
qed


lemma receive_cases:
  "receive m hash debug isLast cb now h r = (BadRequest ErrInvalidMethod, h, []) \<or>
   receive m hash debug isLast cb now h r = (BadRequest ErrInvalidTrname, h, []) \<or>
   receive m hash debug isLast cb now h r =
     recv_loop hash debug isLast cb now h \<lparr>body = Body r, headerBuf = replicate m 0\<rparr>"
  by (simp add: receive_def)


lemma run_closed_eval:
  "fst run_closed = Finished \<and>
   sessions (fst (snd run_closed)) 8 = Some \<lparr>Num = 1, Size = 1, Offset = 113\<rparr> \<and>
   sessions (fst (snd run_closed)) 7 = None \<and>
   oldSessions (fst (snd run_closed)) 7 = None \<and>
   oldSessions (fst (snd run_closed)) 8 = Some sample_now \<and>
   snd (snd run_closed) =
     [(Some \<lparr>hBucket = [], Objname = [], Opaque = [], Dsize = 1\<rparr>, 8, 56, None),
      (None, 8, 56, Some EOF)]"
  by code_simp

lemma run_open_eval:
  "fst run_open = Finished \<and>
   sessions (fst (snd run_open)) 8 = Some \<lparr>Num = 1, Size = 1, Offset = 57\<rparr> \<and>
   sessions (fst (snd run_open)) 7 = Some \<lparr>Num = 3, Size = 30, Offset = 300\<rparr> \<and>
   oldSessions (fst (snd run_open)) 7 = Some 0 \<and>
   oldSessions (fst (snd run_open)) 8 = None \<and>
   snd (snd run_open) =
     [(Some \<lparr>hBucket = [], Objname = [], Opaque = [], Dsize = 1\<rparr>, 8, 56, None),
      (None, 0, 0, Some EOF)]"
  by code_simp



text \<open>
  C8, as the claim states it, fails in its consequence: the sweep runs only when the
  request ends on a frame of a session with \<open>sessid\<close> other than 0. Here session 7
  closed more than \<open>cleanupTimeout\<close> ago; a request delivers an object on session 8
  and then its body ends; \<open>next\<close> reports the end with \<open>sessid = 0\<close>, and session 7 is
  still in both maps.
\<close>

theorem receive_cleanup_counterexample:
  "expired sample_now sample_handler 7 \<and>
   session_frames 8 (snd (snd run_open)) \<noteq> [] \<and>
   fst run_open = Finished \<and>
   oldSessions (fst (snd run_open)) 7 = Some 0 \<and>
   sample_now - 0 > cleanupTimeout \<and>
   sessions (fst (snd run_open)) 7 \<noteq> None"
proof -
  have "expired sample_now sample_handler 7"
    by (simp add: expired_def sample_handler_def sample_now_def cleanupTimeout_def)
  moreover have "session_frames 8 (snd (snd run_open)) \<noteq> []"
    using run_open_eval by (simp add: session_frames_def)
  moreover have "sample_now - 0 > cleanupTimeout"
    by (simp add: sample_now_def cleanupTimeout_def)
  ultimately show ?thesis using run_open_eval by simp
qed

text \<open>
  C8, amended: when a request ends on a frame that carries an error and a \<open>sessid\<close>
  other than 0, that \<open>sessid\<close> is recorded in \<open>old_sessions\<close> with the current time,
  every entry that had expired is gone from \<open>sessions\<close> and (unless it is the one just
  recorded) from \<open>old_sessions\<close>, the other entries are kept, and no entry of
  \<open>old_sessions\<close> is older than \<open>cleanupTimeout\<close>. A request that ends in any other
  way leaves \<open>old_sessions\<close> as it was.
\<close>

theorem receive_cleanup:
  assumes "receive MaxHeaderSize hash debug isLast callback now h r = (out, h', tr)"
  shows "(\<forall>sid. ends_session tr sid \<longrightarrow>
       oldSessions h' sid = Some now \<and>
       (\<forall>s. expired now h s \<longrightarrow> sessions h' s = None \<and> (s \<noteq> sid \<longrightarrow> oldSessions h' s = None)) \<and>
       (\<forall>s. s \<noteq> sid \<and> \<not> expired now h s \<longrightarrow> oldSessions h' s = oldSessions h s) \<and>
       (\<forall>s. \<not> expired now h' s)) \<and>
    ((\<forall>sid. \<not> ends_session tr sid) \<longrightarrow> oldSessions h' = oldSessions h)"
proof -
  have r: "cleanup_rel now h h' tr"
    using receive_cases [of MaxHeaderSize hash debug isLast callback now h r] assms
      recv_loop_cleanup_rel [of hash debug isLast callback now h _ out h' tr]
      cleanup_rel_not_ended [of h h "[]" now]
    by (auto simp: ends_session_def)
  have "oldSessions h' sid = Some now \<and>
       (\<forall>s. expired now h s \<longrightarrow> sessions h' s = None \<and> (s \<noteq> sid \<longrightarrow> oldSessions h' s = None)) \<and>
       (\<forall>s. s \<noteq> sid \<and> \<not> expired now h s \<longrightarrow> oldSessions h' s = oldSessions h s) \<and>
       (\<forall>s. \<not> expired now h' s)" if e: "ends_session tr sid" for sid
  proof -
    from r e have o: "oldSessions h' =
        (\<lambda>s. if expired now h s then None else oldSessions h s)(sid \<mapsto> now)"
      and s: "\<forall>s. expired now h s \<longrightarrow> sessions h' s = None"
      by (simp_all add: cleanup_rel_def)
    have "\<not> expired now h' s" for s
      unfolding expired_def o by (auto simp: expired_def cleanupTimeout_def split: option.splits)
    with o s show ?thesis by simp
  qed
  moreover have "(\<forall>sid. \<not> ends_session tr sid) \<longrightarrow> oldSessions h' = oldSessions h"
    using r by (simp add: cleanup_rel_def)
  ultimately show ?thesis by blast
qed

theorem receive_cleanup_witness:
  "ends_session (snd (snd run_closed)) 8 \<and> expired sample_now sample_handler 7 \<and>
   oldSessions (fst (snd run_closed)) 8 = Some sample_now \<and>
   sessions (fst (snd run_closed)) 7 = None \<and>
   oldSessions (fst (snd run_closed)) 7 = None \<and>
   \<not> ends_session (snd (snd run_open)) 8 \<and>
   oldSessions (fst (snd run_open)) = oldSessions sample_handler"
proof -
  have h1: "receive 40 (\<lambda>x. x) False sample_isLast sample_callback sample_now sample_handler
     (sample_request (sample_frame 8 1 [0xAB] @ sample_frame 8 0 [])) =
       (fst run_closed, fst (snd run_closed), snd (snd run_closed))"
    by (simp add: run_closed_def)
  have h2: "receive 40 (\<lambda>x. x) False sample_isLast sample_callback sample_now sample_handler
     (sample_request (sample_frame 8 1 [0xAB])) =
       (fst run_open, fst (snd run_open), snd (snd run_open))"
    by (simp add: run_open_def)
  have e1: "ends_session (snd (snd run_closed)) 8"
    using run_closed_eval by (simp add: ends_session_def)
  have e2: "\<not> ends_session (snd (snd run_open)) sid" for sid
    using run_open_eval by (simp add: ends_session_def)
  have x: "expired sample_now sample_handler 7"
    by (simp add: expired_def sample_handler_def sample_now_def cleanupTimeout_def)
  from receive_cleanup [OF h1] e1 x
  have a: "oldSessions (fst (snd run_closed)) 8 = Some sample_now"
    "sessions (fst (snd run_closed)) 7 = None" "oldSessions (fst (snd run_closed)) 7 = None"
    by auto
  from receive_cleanup [OF h2] e2
  have b: "oldSessions (fst (snd run_open)) = oldSessions sample_handler" by blast
  from e1 x a e2 b show ?thesis by blast
qed



section \<open>Properties of the asynchronous dispatcher\<close>




end
